theory Spec2Isabelle
  imports Main "HOL-Library.Word"
begin

unbundle bit_operations_syntax

section \<open>The guest-page mapping cache of libbdvmi (src/bdvmixencache.cpp)\<close>

text \<open>
  The class \<open>XenPageCache\<close> keeps two \<open>std::map\<close>s: \<open>cache_\<close> from a guest frame
  number to a \<open>CacheInfo\<close>, and \<open>reverseCache_\<close> from the mapped host pointer back to
  the guest frame number. The model follows the source function by function. The
  members lose the trailing underscore of their C++ names.
\<close>

subsection \<open>Data\<close>

text \<open>
  \<open>unsigned long\<close> (the gfn, the value of \<open>generateIndex\<close>) is a 64-bit word. A
  \<open>void *\<close> is a 64-bit word as well, \<open>nullptr\<close> being 0; \<open>xc_interface *\<close> likewise.
  \<open>size_t\<close> values (the limit, the size of a map, the loop counters) are natural
  numbers: the code only compares them and halves one of them.
\<close>

type_synonym gfn = "64 word"
type_synonym ptr = "64 word"

datatype MapReturnCode = MAP_SUCCESS | MAP_FAILED_GENERIC | MAP_PAGE_NOT_PRESENT

text \<open>
  Modelled from the spec: the declaration of \<open>CacheInfo\<close> (bdvmi/xencache.h) is not among
  the sources. The spec calls \<open>in_use\<close> the "number of outstanding holders" that "must
  never go negative", and \<open>cleanup\<close> tests \<open>in_use < 1\<close>: it is a signed integer, whose
  width is not modelled. \<open>accessed\<close> holds a value of \<open>generateIndex\<close> and is the key of
  the \<open>std::multimap<unsigned long, unsigned long>\<close> of \<open>cleanup\<close>.
\<close>

record CacheInfo =
  accessed :: "64 word"
  pointer :: ptr
  in_use :: int

text \<open>The messages handed to the log helper; their text is not modelled.\<close>

datatype log_message =
    CannotAccessOsrelease
  | CheckPagesFailed gfn

text \<open>
  The calls the cache makes to its collaborators, in the order it makes them:
  \<open>xc_map_foreign_range\<close> (with the domain, the gfn and the pointer it returned),
  \<open>munmap\<close>, \<open>mincore\<close>, \<open>StatsCollector::incStat\<close>, \<open>LogHelper::error\<close> and
  \<open>LogHelper::debug\<close> (with the three numbers of the cleanup summary).
\<close>

datatype event =
    XcMapForeignRange "16 word" gfn ptr
  | Munmap ptr
  | Mincore ptr
  | IncStat string
  | LogError log_message
  | LogDebug nat nat nat

text \<open>
  What the environment answers during one call of \<open>update\<close>: the pointer
  \<open>xc_map_foreign_range\<close> returns (0 for NULL), the return value of \<open>mincore\<close> and the
  byte it leaves in \<open>vec[0]\<close>. An answer is read only if the call is made.
\<close>

record env =
  map_result :: ptr
  mincore_rc :: int
  mincore_vec :: "8 word"

text \<open>
  The object, the function-local static \<open>index\<close> of \<open>generateIndex\<close>, and the calls made
  so far (\<open>effects\<close>). \<open>logHelper\<close> tells whether the \<open>LogHelper *\<close> is non-null.
  \<open>linuxMajVersion\<close> is compared with 4 and starts at -1: a signed integer.
\<close>

record state =
  xci :: ptr
  domain :: "16 word"
  cacheLimit :: nat
  logHelper :: bool
  linuxMajVersion :: int
  cache :: "(gfn \<times> CacheInfo) list"
  reverseCache :: "(ptr \<times> gfn) list"
  index :: "64 word"
  effects :: "event list"

subsection \<open>std::map and std::multimap\<close>

text \<open>
  A \<open>std::map\<close> is the list of its elements in iteration order, that is by ascending
  key, with no key twice.
\<close>

definition std_map :: "('k::linorder \<times> 'v) list \<Rightarrow> bool" where
  "std_map m = sorted_wrt (<) (map fst m)"

definition map_find :: "('k \<times> 'v) list \<Rightarrow> 'k \<Rightarrow> 'v option" where
  "map_find m k = map_of m k"

definition map_erase :: "'k \<Rightarrow> ('k \<times> 'v) list \<Rightarrow> ('k \<times> 'v) list" where
  "map_erase k m = filter (\<lambda>e. fst e \<noteq> k) m"

text \<open>\<open>m[k] = v\<close>: replaces the value of an existing key, inserts a new key in order.\<close>

fun map_assign :: "'k::linorder \<Rightarrow> 'v \<Rightarrow> ('k \<times> 'v) list \<Rightarrow> ('k \<times> 'v) list" where
  "map_assign k v [] = [(k, v)]"
| "map_assign k v (e # m) =
     (if k < fst e then (k, v) # e # m
      else if k = fst e then (k, v) # m
      else e # map_assign k v m)"

text \<open>A write through an iterator, \<open>i->second = f (i->second)\<close>, where \<open>i\<close> is at key \<open>k\<close>.\<close>

definition map_modify :: "'k \<Rightarrow> ('v \<Rightarrow> 'v) \<Rightarrow> ('k \<times> 'v) list \<Rightarrow> ('k \<times> 'v) list" where
  "map_modify k f m = map (\<lambda>e. if fst e = k then (fst e, f (snd e)) else e) m"

text \<open>
  \<open>std::multimap::insert\<close> puts the new element at the upper bound of its key: after
  every element whose key is not greater.
\<close>

fun multimap_insert :: "('k::linorder \<times> 'v) \<Rightarrow> ('k \<times> 'v) list \<Rightarrow> ('k \<times> 'v) list" where
  "multimap_insert e [] = [e]"
| "multimap_insert e (x # xs) =
     (if fst e < fst x then e # x # xs else x # multimap_insert e xs)"

subsection \<open>Construction\<close>

text \<open>
  The constructor without a provider handle. \<open>MAX_CACHE_SIZE_DEFAULT\<close> is declared in
  the header, which is not among the sources: it is the parameter \<open>dflt\<close>. The static of
  \<open>generateIndex\<close> is shared by the process, so its value is a parameter as well.
\<close>

definition XenPageCache :: "nat \<Rightarrow> bool \<Rightarrow> 64 word \<Rightarrow> state" where
  "XenPageCache dflt lh idx =
     \<lparr>xci = 0, domain = - 1, cacheLimit = dflt, logHelper = lh, linuxMajVersion = - 1,
      cache = [], reverseCache = [], index = idx, effects = []\<rparr>"

text \<open>
  \<open>init\<close>: \<open>osrelease\<close> is \<open>None\<close> when /proc/sys/kernel/osrelease cannot be opened,
  and otherwise the integer the extraction \<open>in >> linuxMajVersion_\<close> stores.
\<close>

definition init :: "state \<Rightarrow> ptr \<Rightarrow> 16 word \<Rightarrow> int option \<Rightarrow> state" where
  "init st x d osrelease =
     (let st1 = st\<lparr>xci := x, domain := d\<rparr> in
      case osrelease of
        Some v \<Rightarrow> st1\<lparr>linuxMajVersion := v\<rparr>
      | None \<Rightarrow>
          if logHelper st1 then st1\<lparr>effects := effects st1 @ [LogError CannotAccessOsrelease]\<rparr>
          else st1)"

text \<open>The constructor that takes the provider handle and the domain.\<close>

definition XenPageCache_xci :: "nat \<Rightarrow> ptr \<Rightarrow> 16 word \<Rightarrow> bool \<Rightarrow> int option \<Rightarrow> 64 word \<Rightarrow> state" where
  "XenPageCache_xci dflt x d lh osrelease idx = init (XenPageCache dflt lh idx) x d osrelease"

subsection \<open>The operations\<close>

text \<open>
  \<open>checkPages\<close>: \<open>&&\<close> and \<open>||\<close> evaluate from the left and stop early, so \<open>mincore\<close> is
  called only when the major version is below 4, and \<open>vec[0]\<close> is read only when
  \<open>mincore\<close> did not fail.
\<close>

definition checkPages :: "state \<Rightarrow> env \<Rightarrow> ptr \<Rightarrow> bool \<times> state" where
  "checkPages st e addr =
     (if linuxMajVersion st < 4 then
        (let st1 = st\<lparr>effects := effects st @ [Mincore addr]\<rparr> in
         if mincore_rc e < 0 \<or> mincore_vec e AND 1 = 0 then (False, st1) else (True, st1))
      else (True, st))"

definition setLimit :: "state \<Rightarrow> nat \<Rightarrow> bool \<times> state" where
  "setLimit st limit =
     (if limit < 50 then (False, st) else (True, st\<lparr>cacheLimit := limit\<rparr>))"

definition generateIndex :: "state \<Rightarrow> 64 word \<times> state" where
  "generateIndex st = (index st, st\<lparr>index := index st + 1\<rparr>)"

text \<open>The first loop of \<open>cleanup\<close>: the unused entries, keyed by \<open>accessed\<close>.\<close>

fun collect_unused :: "(gfn \<times> CacheInfo) list \<Rightarrow> (64 word \<times> gfn) list \<Rightarrow> (64 word \<times> gfn) list" where
  "collect_unused [] t = t"
| "collect_unused (e # m) t =
     collect_unused m
       (if in_use (snd e) < 1 then multimap_insert (accessed (snd e), fst e) t else t)"

text \<open>
  The second loop of \<open>cleanup\<close>, over what is left of \<open>timeOrderedGFNs\<close>, with the
  counters \<open>count\<close> and \<open>unmapped\<close>. It returns \<open>unmapped\<close> and the state.
\<close>

fun evict :: "(64 word \<times> gfn) list \<Rightarrow> nat \<Rightarrow> nat \<Rightarrow> state \<Rightarrow> nat \<times> state" where
  "evict [] count unmapped st = (unmapped, st)"
| "evict (ti # rest) count unmapped st =
     (if count \<ge> cacheLimit st div 2 then (unmapped, st)
      else
        (case map_find (cache st) (snd ti) of
           None \<Rightarrow> evict rest (count + 1) unmapped st
         | Some ci \<Rightarrow>
             evict rest (count + 1) (unmapped + 1)
               (st\<lparr>effects := effects st @ [Munmap (pointer ci)],
                   reverseCache := map_erase (pointer ci) (reverseCache st),
                   cache := map_erase (snd ti) (cache st)\<rparr>)))"

definition cleanup :: "state \<Rightarrow> state" where
  "cleanup st =
     (let timeOrderedGFNs = collect_unused (cache st) [];
          total = length (cache st);
          r = evict timeOrderedGFNs 0 0 st
      in if logHelper (snd r)
         then (snd r)\<lparr>effects := effects (snd r) @ [LogDebug total (length timeOrderedGFNs) (fst r)]\<rparr>
         else snd r)"

text \<open>
  \<open>insertNew\<close> returns the status, the value left in the out-parameter \<open>pointer\<close>, and
  the state.
\<close>

definition insertNew :: "state \<Rightarrow> env \<Rightarrow> gfn \<Rightarrow> MapReturnCode \<times> ptr \<times> state" where
  "insertNew st e g =
     (if xci st = 0 then (MAP_FAILED_GENERIC, 0, st)
      else
        (let st1 = (if length (cache st) \<ge> cacheLimit st then cleanup st else st);
             st2 = st1\<lparr>effects := effects st1 @ [IncStat ''xcMapPage'']\<rparr>;
             a = fst (generateIndex st2);
             st3 = snd (generateIndex st2);
             p = map_result e;
             st4 = st3\<lparr>effects := effects st3 @ [XcMapForeignRange (domain st3) g p]\<rparr>
         in if p = 0 then (MAP_FAILED_GENERIC, 0, st4)
            else
              (let ok = fst (checkPages st4 e p);
                   st5 = snd (checkPages st4 e p)
               in if \<not> ok then
                    (MAP_PAGE_NOT_PRESENT, 0,
                     st5\<lparr>effects := effects st5
                            @ (if logHelper st5 then [LogError (CheckPagesFailed g)] else [])
                            @ [Munmap p]\<rparr>)
                  else
                    (MAP_SUCCESS, p,
                     st5\<lparr>cache := map_assign g \<lparr>accessed = a, pointer = p, in_use = 1\<rparr> (cache st5),
                         reverseCache := map_assign p g (reverseCache st5)\<rparr>))))"

definition update :: "state \<Rightarrow> env \<Rightarrow> gfn \<Rightarrow> MapReturnCode \<times> ptr \<times> state" where
  "update st e g =
     (if xci st = 0 then (MAP_FAILED_GENERIC, 0, st)
      else
        (case map_find (cache st) g of
           None \<Rightarrow> insertNew st e g
         | Some ci \<Rightarrow>
             (let a = fst (generateIndex st);
                  st1 = snd (generateIndex st)
              in (MAP_SUCCESS, pointer ci,
                  st1\<lparr>cache := map_modify g (\<lambda>c. c\<lparr>accessed := a, in_use := in_use c + 1\<rparr>) (cache st1)\<rparr>))))"

definition release :: "state \<Rightarrow> ptr \<Rightarrow> state" where
  "release st p =
     (case map_find (reverseCache st) p of
        None \<Rightarrow> st
      | Some g \<Rightarrow>
          (case map_find (cache st) g of
             None \<Rightarrow> st
           | Some ci \<Rightarrow> st\<lparr>cache := map_modify g (\<lambda>c. c\<lparr>in_use := in_use c - 1\<rparr>) (cache st)\<rparr>))"

text \<open>
  The destructor unmaps every cached pointer in iteration order; the destructors of
  the two maps then empty them.
\<close>

definition destroy :: "state \<Rightarrow> state" where
  "destroy st =
     st\<lparr>effects := effects st @ map (\<lambda>e. Munmap (pointer (snd e))) (cache st),
        cache := [], reverseCache := []\<rparr>"

subsection \<open>Sequences of operations\<close>

text \<open>
  One call on the cache: \<open>update\<close> (with what the environment answers during it),
  \<open>release\<close>, \<open>setLimit\<close>, \<open>init\<close>, \<open>cleanup\<close> on its own, and the destructor.
\<close>

datatype op =
    Update env gfn
  | Release ptr
  | SetLimit nat
  | Init ptr "16 word" "int option"
  | Cleanup
  | Destroy

fun exec_op :: "state \<Rightarrow> op \<Rightarrow> state" where
  "exec_op st (Update e g) = snd (snd (update st e g))"
| "exec_op st (Release p) = release st p"
| "exec_op st (SetLimit n) = snd (setLimit st n)"
| "exec_op st (Init x d osrelease) = init st x d osrelease"
| "exec_op st Cleanup = cleanup st"
| "exec_op st Destroy = destroy st"

fun exec :: "state \<Rightarrow> op list \<Rightarrow> state" where
  "exec st [] = st"
| "exec st (x # xs) = exec (exec_op st x) xs"

text \<open>
  The state in which \<open>insertNew\<close> calls the provider: after the cleanup it runs when
  the cache has reached its limit.
\<close>

definition make_room :: "state \<Rightarrow> state" where
  "make_room st = (if length (cache st) \<ge> cacheLimit st then cleanup st else st)"

text \<open>
  What the operating system guarantees of \<open>xc_map_foreign_range\<close>: the address it
  returns is not the address of a page that is still mapped. The pages the cache holds
  mapped at the time of the call are those of the entries left after the cleanup
  \<open>insertNew\<close> may have run. The answer matters only when the call is made: the handle
  is not null and the gfn is not cached.
\<close>

definition mapped_pointers :: "state \<Rightarrow> ptr set" where
  "mapped_pointers st = (\<lambda>e. pointer (snd e)) ` set (cache st)"

fun provider_fresh :: "state \<Rightarrow> op \<Rightarrow> bool" where
  "provider_fresh st (Update e g) =
     (xci st = 0 \<or> map_find (cache st) g \<noteq> None
      \<or> map_result e \<notin> mapped_pointers (make_room st))"
| "provider_fresh st _ = True"

fun env_ok :: "state \<Rightarrow> op list \<Rightarrow> bool" where
  "env_ok st [] = True"
| "env_ok st (x # xs) = (provider_fresh st x \<and> env_ok (exec_op st x) xs)"

text \<open>
  The two indices are duals: each is a map, every forward entry \<open>(g, ci)\<close> has the
  reverse entry \<open>(pointer ci, g)\<close>, and every reverse entry \<open>(p, g)\<close> has a forward entry
  of \<open>g\<close> whose pointer is \<open>p\<close>.
\<close>

definition dual :: "state \<Rightarrow> bool" where
  "dual st \<longleftrightarrow>
     std_map (cache st) \<and> std_map (reverseCache st) \<and>
     (\<forall>g ci. map_find (cache st) g = Some ci \<longrightarrow>
        map_find (reverseCache st) (pointer ci) = Some g) \<and>
     (\<forall>p g. map_find (reverseCache st) p = Some g \<longrightarrow>
        (\<exists>ci. map_find (cache st) g = Some ci \<and> pointer ci = p))"

text \<open>
  A sequence in which no \<open>release\<close> reaches an entry whose \<open>in_use\<close> is below 1: every
  release is of a pointer still held.
\<close>

fun release_held :: "state \<Rightarrow> op \<Rightarrow> bool" where
  "release_held st (Release p) =
     (case map_find (reverseCache st) p of
        None \<Rightarrow> True
      | Some g \<Rightarrow> (case map_find (cache st) g of None \<Rightarrow> True | Some ci \<Rightarrow> 1 \<le> in_use ci))"
| "release_held st _ = True"

fun releases_held :: "state \<Rightarrow> op list \<Rightarrow> bool" where
  "releases_held st [] = True"
| "releases_held st (x # xs) = (release_held st x \<and> releases_held (exec_op st x) xs)"

text \<open>The number of times a call appears among the effects.\<close>

definition calls :: "event \<Rightarrow> state \<Rightarrow> nat" where
  "calls ev st = length (filter (\<lambda>x. x = ev) (effects st))"

text \<open>An environment in which the mapping succeeds with \<open>p\<close> and the page is resident.\<close>

definition maps_to :: "ptr \<Rightarrow> env" where
  "maps_to p = \<lparr>map_result = p, mincore_rc = 0, mincore_vec = 1\<rparr>"

text \<open>
  The scenario of the spec: each gfn is acquired, the provider answering with the
  pointer paired with it, and released at once.
\<close>

fun acquire_release :: "(gfn \<times> ptr) list \<Rightarrow> op list" where
  "acquire_release [] = []"
| "acquire_release (gp # gps) = Update (maps_to (snd gp)) (fst gp) # Release (snd gp) # acquire_release gps"

subsection \<open>Names for the parts of cleanup and insertNew\<close>

text \<open>\<open>timeOrderedGFNs\<close> as the first loop of \<open>cleanup\<close> leaves it.\<close>

definition candidates :: "state \<Rightarrow> (64 word \<times> gfn) list" where
  "candidates st = collect_unused (cache st) []"

text \<open>
  How many elements the second loop passes before it breaks or runs out, when it starts
  with the counter at \<open>c\<close>.
\<close>

definition quota :: "state \<Rightarrow> nat \<Rightarrow> (64 word \<times> gfn) list \<Rightarrow> nat" where
  "quota st c ti = min (length ti) (cacheLimit st div 2 - c)"

definition victims :: "state \<Rightarrow> (64 word \<times> gfn) list" where
  "victims st = take (quota st 0 (candidates st)) (candidates st)"

text \<open>The pointer cached for the gfn of an element of \<open>timeOrderedGFNs\<close>.\<close>

definition victim_pointer :: "state \<Rightarrow> (64 word \<times> gfn) \<Rightarrow> ptr" where
  "victim_pointer st t = (case map_find (cache st) (snd t) of None \<Rightarrow> 0 | Some ci \<Rightarrow> pointer ci)"

text \<open>The two calls \<open>insertNew\<close> makes after the cleanup: the counter, then the provider.\<close>

definition provider_call :: "state \<Rightarrow> env \<Rightarrow> gfn \<Rightarrow> event list" where
  "provider_call st e g = [IncStat ''xcMapPage'', XcMapForeignRange (domain st) g (map_result e)]"

text \<open>The condition of \<open>checkPages\<close> under which it returns true.\<close>

definition admitted :: "state \<Rightarrow> env \<Rightarrow> bool" where
  "admitted st e \<longleftrightarrow> \<not> (linuxMajVersion st < 4 \<and> (mincore_rc e < 0 \<or> mincore_vec e AND 1 = 0))"

text \<open>
  The entries the scenario leaves for its pairs when the clock starts at \<open>a\<close>: one per
  pair, stamped \<open>a\<close>, \<open>a + 1\<close>, ..., each released.
\<close>

fun expected :: "64 word \<Rightarrow> (gfn \<times> ptr) list \<Rightarrow> (gfn \<times> CacheInfo) list" where
  "expected a [] = []"
| "expected a (gp # gps) = (fst gp, \<lparr>accessed = a, pointer = snd gp, in_use = 0\<rparr>) # expected (a + 1) gps"

definition filled :: "state \<Rightarrow> (gfn \<times> ptr) list \<Rightarrow> state \<Rightarrow> bool" where
  "filled st gps st' \<longleftrightarrow>
     xci st' = xci st \<and> cacheLimit st' = cacheLimit st \<and> linuxMajVersion st' = linuxMajVersion st
     \<and> logHelper st' = logHelper st \<and> domain st' = domain st
     \<and> index st' = index st + of_nat (length gps)
     \<and> std_map (cache st')
     \<and> set (cache st') = set (cache st) \<union> set (expected (index st) gps)
     \<and> length (cache st') = length (cache st) + length gps"

text \<open>Every count in the cache is at least 0, and the cache is a map.\<close>

definition counts_ok :: "state \<Rightarrow> bool" where
  "counts_ok st \<longleftrightarrow> std_map (cache st) \<and> list_all (\<lambda>e. 0 \<le> in_use (snd e)) (cache st)"

subsection \<open>Concrete states\<close>

text \<open>A cache of three entries, the second one in use.\<close>

definition three_entries :: state where
  "three_entries =
     \<lparr>xci = 1, domain = 1, cacheLimit = 50, logHelper = True, linuxMajVersion = 5,
      cache = [(1, \<lparr>accessed = 7, pointer = 0x1000, in_use = 0\<rparr>),
               (2, \<lparr>accessed = 3, pointer = 0x2000, in_use = 2\<rparr>),
               (3, \<lparr>accessed = 5, pointer = 0x3000, in_use = 0\<rparr>)],
      reverseCache = [(0x1000, 1), (0x2000, 2), (0x3000, 3)], index = 8, effects = []\<rparr>"

text \<open>
  A cache bound to a provider on a host whose major version is \<open>v\<close>, limited to 50
  entries by \<open>setLimit\<close>, the default limit being 1536.
\<close>

definition bound_cache :: "int \<Rightarrow> state" where
  "bound_cache v = snd (setLimit (XenPageCache_xci 1536 1 1 True (Some v) 0) 50)"

text \<open>Fifty gfns, 100 to 149, and the page-aligned addresses the provider maps them at.\<close>

definition fifty :: "(gfn \<times> ptr) list" where
  "fifty = map (\<lambda>i. (word_of_nat i + 100, 4096 * (word_of_nat i + 1))) [0..<50]"

text \<open>An environment in which the mapping succeeds with \<open>p\<close> and the page is not resident.\<close>

definition maps_absent :: "ptr \<Rightarrow> env" where
  "maps_absent p = \<lparr>map_result = p, mincore_rc = 0, mincore_vec = 0\<rparr>"

text \<open>An environment in which the provider returns NULL.\<close>

definition map_fails :: env where
  "map_fails = \<lparr>map_result = 0, mincore_rc = 0, mincore_vec = 0\<rparr>"

section \<open>Lemmas\<close>

subsection \<open>std::map\<close>

lemma std_map_distinct: "std_map m \<Longrightarrow> distinct (map fst m)"
  by (simp add: std_map_def strict_sorted_iff)

lemma std_map_Cons: "std_map (e # m) \<longleftrightarrow> (\<forall>x\<in>set m. fst e < fst x) \<and> std_map m"
  by (auto simp: std_map_def)

lemma std_map_Nil: "std_map []"
  by (simp add: std_map_def)

lemma map_find_Nil: "map_find [] k = None"
  by (simp add: map_find_def)

lemma map_find_Some_mem: "map_find m k = Some v \<Longrightarrow> (k, v) \<in> set m"
  by (simp add: map_find_def map_of_SomeD)

lemma map_find_mem: "distinct (map fst m) \<Longrightarrow> (k, v) \<in> set m \<Longrightarrow> map_find m k = Some v"
  by (simp add: map_find_def)

lemma map_find_None_iff: "map_find m k = None \<longleftrightarrow> k \<notin> fst ` set m"
  by (simp add: map_find_def map_of_eq_None_iff)

lemma map_find_filter_keys:
  "map_find (filter (\<lambda>e. fst e \<notin> V) m) k = (if k \<in> V then None else map_find m k)"
  by (induction m) (auto simp: map_find_def)

lemma map_find_erase: "map_find (map_erase k m) k' = (if k' = k then None else map_find m k')"
  by (induction m) (auto simp: map_find_def map_erase_def)

lemma std_map_filter: "std_map m \<Longrightarrow> std_map (filter P m)"
  by (induction m) (auto simp: std_map_Cons)

lemma std_map_erase: "std_map m \<Longrightarrow> std_map (map_erase k m)"
  by (simp add: map_erase_def std_map_filter)

lemma length_erase:
  "distinct (map fst m) \<Longrightarrow> k \<in> fst ` set m \<Longrightarrow> Suc (length (map_erase k m)) = length m"
proof (induction m)
  case Nil
  then show ?case by simp
next
  case (Cons e m)
  show ?case
  proof (cases "fst e = k")
    case True
    with Cons.prems have "k \<notin> fst ` set m" by auto
    then have "filter (\<lambda>e. fst e \<noteq> k) m = m"
      by (auto simp: filter_id_conv)
    with True show ?thesis by (simp add: map_erase_def)
  next
    case False
    with Cons show ?thesis by (auto simp: map_erase_def)
  qed
qed

lemma set_map_assign: "fst ` set (map_assign k v m) = insert k (fst ` set m)"
  by (induction m) auto

lemma set_map_assign_sub: "set (map_assign k v m) \<subseteq> insert (k, v) (set m)"
  by (induction m) auto

lemma map_find_assign: "map_find (map_assign k v m) k' = (if k' = k then Some v else map_find m k')"
  by (induction m) (auto simp: map_find_def)

lemma std_map_assign: "std_map m \<Longrightarrow> std_map (map_assign k v m)"
proof (induction m)
  case Nil
  then show ?case by (simp add: std_map_def)
next
  case (Cons e m)
  then have m: "std_map (map_assign k v m)" and lt: "\<forall>x\<in>set m. fst e < fst x"
    by (simp_all add: std_map_Cons)
  show ?case
  proof (cases "k < fst e")
    case True
    with Cons.prems lt show ?thesis by (auto simp: std_map_Cons)
  next
    case False
    show ?thesis
    proof (cases "k = fst e")
      case True
      with Cons.prems show ?thesis by (auto simp: std_map_Cons)
    next
      case ne: False
      with False have "fst e < k" by simp
      moreover have "\<forall>x\<in>set (map_assign k v m). fst x = k \<or> fst x \<in> fst ` set m"
        using set_map_assign [of k v m] by auto
      ultimately have "\<forall>x\<in>set (map_assign k v m). fst e < fst x"
        using lt by fastforce
      with m False ne show ?thesis by (simp add: std_map_Cons)
    qed
  qed
qed

lemma length_assign_new:
  "k \<notin> fst ` set m \<Longrightarrow> length (map_assign k v m) = Suc (length m)"
  by (induction m) auto

lemma map_fst_modify: "map fst (map_modify k f m) = map fst m"
  by (induction m) (auto simp: map_modify_def)

lemma std_map_modify: "std_map (map_modify k f m) = std_map m"
  by (simp add: std_map_def map_fst_modify)

lemma length_modify: "length (map_modify k f m) = length m"
  by (simp add: map_modify_def)

lemma map_find_modify:
  "map_find (map_modify k f m) k' = (if k' = k then map_option f (map_find m k) else map_find m k')"
  by (induction m) (auto simp: map_find_def map_modify_def)

subsection \<open>std::multimap and the first loop\<close>

lemma set_multimap_insert: "set (multimap_insert e xs) = insert e (set xs)"
  by (induction xs) auto

lemma length_multimap_insert: "length (multimap_insert e xs) = Suc (length xs)"
  by (induction xs) auto

lemma sorted_multimap_insert:
  "sorted (map fst xs) \<Longrightarrow> sorted (map fst (multimap_insert e xs))"
  by (induction xs) (auto simp: set_multimap_insert)

lemma distinct_multimap_insert:
  "distinct (map snd xs) \<Longrightarrow> snd e \<notin> snd ` set xs \<Longrightarrow> distinct (map snd (multimap_insert e xs))"
  by (induction xs) (auto simp: set_multimap_insert)

lemma set_collect_unused:
  "set (collect_unused m t) =
     set t \<union> (\<lambda>e. (accessed (snd e), fst e)) ` {e \<in> set m. in_use (snd e) < 1}"
  by (induction m arbitrary: t) (auto simp: set_multimap_insert)

lemma length_collect_unused:
  "length (collect_unused m t) = length t + length (filter (\<lambda>e. in_use (snd e) < 1) m)"
  by (induction m arbitrary: t) (auto simp: length_multimap_insert)

lemma sorted_collect_unused:
  "sorted (map fst t) \<Longrightarrow> sorted (map fst (collect_unused m t))"
  by (induction m arbitrary: t) (auto simp: sorted_multimap_insert)

lemma distinct_collect_unused:
  "distinct (map fst m) \<Longrightarrow> distinct (map snd t) \<Longrightarrow> snd ` set t \<inter> fst ` set m = {}
   \<Longrightarrow> distinct (map snd (collect_unused m t))"
proof (induction m arbitrary: t)
  case Nil
  then show ?case by simp
next
  case (Cons e m)
  show ?case
  proof (cases "in_use (snd e) < 1")
    case True
    have "distinct (map snd (multimap_insert (accessed (snd e), fst e) t))"
      using Cons.prems by (intro distinct_multimap_insert) auto
    moreover have "snd ` set (multimap_insert (accessed (snd e), fst e) t) \<inter> fst ` set m = {}"
      using Cons.prems by (auto simp: set_multimap_insert)
    ultimately show ?thesis using Cons.IH [of "multimap_insert (accessed (snd e), fst e) t"] Cons.prems True
      by simp
  next
    case False
    then show ?thesis using Cons.IH [of t] Cons.prems by auto
  qed
qed

subsection \<open>The second loop and cleanup\<close>

lemma evict_fields:
  "xci (snd (evict ti c u st)) = xci st \<and> domain (snd (evict ti c u st)) = domain st
   \<and> cacheLimit (snd (evict ti c u st)) = cacheLimit st \<and> logHelper (snd (evict ti c u st)) = logHelper st
   \<and> linuxMajVersion (snd (evict ti c u st)) = linuxMajVersion st \<and> index (snd (evict ti c u st)) = index st"
  by (induction ti c u st rule: evict.induct) (auto split: option.splits)

lemma cleanup_fields:
  "xci (cleanup st) = xci st" "domain (cleanup st) = domain st"
  "cacheLimit (cleanup st) = cacheLimit st" "logHelper (cleanup st) = logHelper st"
  "linuxMajVersion (cleanup st) = linuxMajVersion st" "index (cleanup st) = index st"
  by (simp_all add: cleanup_def Let_def evict_fields)

lemma evict_char:
  assumes "distinct (map snd ti)" "\<forall>t\<in>set ti. map_find (cache st) (snd t) \<noteq> None"
  shows "fst (evict ti c u st) = u + quota st c ti
       \<and> cache (snd (evict ti c u st)) = filter (\<lambda>e. fst e \<notin> snd ` set (take (quota st c ti) ti)) (cache st)
       \<and> reverseCache (snd (evict ti c u st)) =
           filter (\<lambda>e. fst e \<notin> victim_pointer st ` set (take (quota st c ti) ti)) (reverseCache st)
       \<and> effects (snd (evict ti c u st)) =
           effects st @ map (\<lambda>t. Munmap (victim_pointer st t)) (take (quota st c ti) ti)"
  using assms
proof (induction ti arbitrary: c u st)
  case Nil
  then show ?case by (simp add: quota_def)
next
  case (Cons t rest)
  show ?case
  proof (cases "cacheLimit st div 2 \<le> c")
    case True
    then show ?thesis by (simp add: quota_def)
  next
    case False
    from Cons.prems obtain ci where ci: "map_find (cache st) (snd t) = Some ci"
      by auto
    define st' where "st' = st\<lparr>effects := effects st @ [Munmap (pointer ci)],
                   reverseCache := map_erase (pointer ci) (reverseCache st),
                   cache := map_erase (snd t) (cache st)\<rparr>"
    have step: "evict (t # rest) c u st = evict rest (c + 1) (u + 1) st'"
      using False ci by (simp add: st'_def)
    have lim: "cacheLimit st' = cacheLimit st" by (simp add: st'_def)
    have q: "quota st c (t # rest) = Suc (quota st' (c + 1) rest)"
      using False by (auto simp: quota_def lim min_def)
    have same: "\<forall>t'\<in>set rest. map_find (cache st') (snd t') = map_find (cache st) (snd t')"
    proof
      fix t' assume "t' \<in> set rest"
      then have "snd t' \<in> snd ` set rest" by (rule imageI)
      moreover from Cons.prems(1) have "snd t \<notin> snd ` set rest" by simp
      ultimately have "snd t' \<noteq> snd t" by metis
      then show "map_find (cache st') (snd t') = map_find (cache st) (snd t')"
        by (simp add: st'_def map_find_erase)
    qed
    then have vp: "\<forall>t'\<in>set rest. victim_pointer st' t' = victim_pointer st t'"
      by (simp add: victim_pointer_def)
    have vpt: "victim_pointer st t = pointer ci"
      by (simp add: victim_pointer_def ci)
    have d: "distinct (map snd rest)" using Cons.prems(1) by simp
    have f: "\<forall>t'\<in>set rest. map_find (cache st') (snd t') \<noteq> None"
      using same Cons.prems(2) by simp
    note IH = Cons.IH [OF d f, of "c + 1" "u + 1"]
    let ?n = "quota st' (c + 1) rest"
    have sub: "set (take ?n rest) \<subseteq> set rest" by (rule set_take_subset)
    have vpm: "map (\<lambda>t. Munmap (victim_pointer st' t)) (take ?n rest)
             = map (\<lambda>t. Munmap (victim_pointer st t)) (take ?n rest)"
      using vp sub by (intro map_cong) auto
    have vpi: "victim_pointer st' ` set (take ?n rest) = victim_pointer st ` set (take ?n rest)"
      using vp sub by (intro image_cong) auto
    have c1: "fst (evict (t # rest) c u st) = u + quota st c (t # rest)"
      using IH step q by simp
    have c2: "cache (snd (evict (t # rest) c u st)) =
        filter (\<lambda>e. fst e \<notin> snd ` set (take (quota st c (t # rest)) (t # rest))) (cache st)"
      using IH step q by (auto simp: st'_def map_erase_def intro: filter_cong)
    have c3: "reverseCache (snd (evict (t # rest) c u st)) =
        filter (\<lambda>e. fst e \<notin> victim_pointer st ` set (take (quota st c (t # rest)) (t # rest))) (reverseCache st)"
      using IH step q vpi vpt by (auto simp: st'_def map_erase_def intro: filter_cong)
    have c4: "effects (snd (evict (t # rest) c u st)) =
           effects st @ map (\<lambda>t. Munmap (victim_pointer st t)) (take (quota st c (t # rest)) (t # rest))"
      using IH step q vpm vpt by (simp add: st'_def)
    from c1 c2 c3 c4 show ?thesis by blast
  qed
qed

lemma set_candidates:
  "set (candidates st) = (\<lambda>e. (accessed (snd e), fst e)) ` {e \<in> set (cache st). in_use (snd e) < 1}"
  by (simp add: candidates_def set_collect_unused)

lemma candidates_found:
  assumes "std_map (cache st)" "t \<in> set (candidates st)"
  shows "\<exists>ci. map_find (cache st) (snd t) = Some ci \<and> in_use ci < 1 \<and> accessed ci = fst t"
proof -
  from assms(2) obtain e where e: "e \<in> set (cache st)" "in_use (snd e) < 1"
      "t = (accessed (snd e), fst e)"
    by (auto simp: set_candidates)
  from e(1) have "(fst e, snd e) \<in> set (cache st)" by simp
  with assms(1) have "map_find (cache st) (fst e) = Some (snd e)"
    by (intro map_find_mem std_map_distinct)
  with e show ?thesis by simp
qed

lemma candidates_mem:
  assumes "map_find (cache st) g = Some ci" "in_use ci < 1"
  shows "(accessed ci, g) \<in> set (candidates st)"
proof -
  from assms(1) have "(g, ci) \<in> set (cache st)" by (rule map_find_Some_mem)
  with assms(2) have "(g, ci) \<in> {e \<in> set (cache st). in_use (snd e) < 1}" by simp
  then have "(\<lambda>e. (accessed (snd e), fst e)) (g, ci) \<in> set (candidates st)"
    unfolding set_candidates by (rule imageI)
  then show ?thesis by simp
qed

lemma distinct_candidates: "std_map (cache st) \<Longrightarrow> distinct (map snd (candidates st))"
  unfolding candidates_def by (rule distinct_collect_unused) (simp_all add: std_map_distinct)

lemma sorted_candidates: "sorted (map fst (candidates st))"
  unfolding candidates_def by (rule sorted_collect_unused) simp

lemma length_candidates:
  "length (candidates st) = length (filter (\<lambda>e. in_use (snd e) < 1) (cache st))"
  by (simp add: candidates_def length_collect_unused)

lemma length_victims:
  "length (victims st) = min (cacheLimit st div 2) (length (filter (\<lambda>e. in_use (snd e) < 1) (cache st)))"
  by (simp add: victims_def quota_def length_candidates min.commute)

lemma victims_sub: "set (victims st) \<subseteq> set (candidates st)"
  unfolding victims_def by (rule set_take_subset)

lemma cleanup_char:
  assumes "std_map (cache st)"
  shows "cache (cleanup st) = filter (\<lambda>e. fst e \<notin> snd ` set (victims st)) (cache st)"
    and "reverseCache (cleanup st) =
           filter (\<lambda>e. fst e \<notin> victim_pointer st ` set (victims st)) (reverseCache st)"
    and "effects (cleanup st) =
           effects st @ map (\<lambda>t. Munmap (victim_pointer st t)) (victims st)
           @ (if logHelper st then [LogDebug (length (cache st)) (length (candidates st)) (length (victims st))] else [])"
proof -
  have d: "distinct (map snd (candidates st))" using assms by (rule distinct_candidates)
  have f: "\<forall>t\<in>set (candidates st). map_find (cache st) (snd t) \<noteq> None"
    using candidates_found [OF assms] by fastforce
  note ev = evict_char [OF d f, of 0 0, folded victims_def]
  have lv: "length (victims st) = quota st 0 (candidates st)"
    by (simp add: victims_def quota_def)
  show "cache (cleanup st) = filter (\<lambda>e. fst e \<notin> snd ` set (victims st)) (cache st)"
    using ev by (simp add: cleanup_def Let_def candidates_def [symmetric])
  show "reverseCache (cleanup st) =
           filter (\<lambda>e. fst e \<notin> victim_pointer st ` set (victims st)) (reverseCache st)"
    using ev by (simp add: cleanup_def Let_def candidates_def [symmetric])
  show "effects (cleanup st) =
           effects st @ map (\<lambda>t. Munmap (victim_pointer st t)) (victims st)
           @ (if logHelper st then [LogDebug (length (cache st)) (length (candidates st)) (length (victims st))] else [])"
    using ev lv by (simp add: cleanup_def Let_def candidates_def [symmetric] evict_fields)
qed

lemma cleanup_find:
  assumes "std_map (cache st)"
  shows "map_find (cache (cleanup st)) g = (if g \<in> snd ` set (victims st) then None else map_find (cache st) g)"
  by (simp add: cleanup_char(1) [OF assms] map_find_filter_keys)

lemma victim_unused:
  assumes "std_map (cache st)" "g \<in> snd ` set (victims st)" "map_find (cache st) g = Some ci"
  shows "in_use ci < 1 \<and> (accessed ci, g) \<in> set (victims st)"
proof -
  from assms(2) obtain t where t: "t \<in> set (victims st)" "snd t = g" by auto
  then have "t \<in> set (candidates st)" using victims_sub by auto
  from candidates_found [OF assms(1) this] t(2) assms(3)
  have "in_use ci < 1" "accessed ci = fst t" by auto
  with t show ?thesis by (cases t) auto
qed

lemma length_cleanup:
  assumes "std_map (cache st)"
  shows "length (cache st) = length (cache (cleanup st)) + length (victims st)"
proof -
  let ?V = "snd ` set (victims st)"
  have dk: "distinct (map fst (cache st))" using assms by (rule std_map_distinct)
  have dv: "distinct (map snd (victims st))"
    using distinct_candidates [OF assms] by (simp add: victims_def take_map [symmetric] distinct_take)
  have sub: "?V \<subseteq> set (map fst (cache st))"
  proof
    fix g assume "g \<in> ?V"
    then obtain t where "t \<in> set (victims st)" "snd t = g" by auto
    then have "t \<in> set (candidates st)" using victims_sub by auto
    from candidates_found [OF assms this] \<open>snd t = g\<close>
    obtain ci where "map_find (cache st) g = Some ci" by auto
    then have "(g, ci) \<in> set (cache st)" by (rule map_find_Some_mem)
    then have "fst (g, ci) \<in> fst ` set (cache st)" by (rule imageI)
    then show "g \<in> set (map fst (cache st))" by simp
  qed
  have "length (filter (\<lambda>e. fst e \<in> ?V) (cache st)) = length (filter (\<lambda>k. k \<in> ?V) (map fst (cache st)))"
    by (simp add: filter_map comp_def)
  also have "\<dots> = card ({k. k \<in> ?V} \<inter> set (map fst (cache st)))"
    using dk by (rule distinct_length_filter)
  also have "{k. k \<in> ?V} \<inter> set (map fst (cache st)) = ?V" using sub by auto
  also have "card ?V = length (victims st)"
    using distinct_card [OF dv] by simp
  finally have "length (filter (\<lambda>e. fst e \<in> ?V) (cache st)) = length (victims st)" .
  moreover have "length (cache st) = length (filter (\<lambda>e. fst e \<in> ?V) (cache st))
      + length (filter (\<lambda>e. \<not> fst e \<in> ?V) (cache st))"
    by (rule sum_length_filter_compl [symmetric])
  ultimately show ?thesis by (simp add: cleanup_char(1) [OF assms])
qed

lemma victims_oldest:
  assumes "t \<in> set (victims st)" "t' \<in> set (candidates st)" "t' \<notin> set (victims st)"
  shows "fst t \<le> fst t'"
proof -
  let ?n = "quota st 0 (candidates st)"
  have split: "candidates st = victims st @ drop ?n (candidates st)"
    by (simp add: victims_def)
  with assms(2,3) have "t' \<in> set (drop ?n (candidates st))"
    by (metis Un_iff set_append)
  moreover have "sorted (map fst (victims st) @ map fst (drop ?n (candidates st)))"
    using sorted_candidates [of st] split by (metis map_append)
  ultimately show ?thesis using assms(1) by (auto simp: sorted_append)
qed

subsection \<open>The outcomes of insertNew and update\<close>

lemma make_room_fields:
  "xci (make_room st) = xci st" "domain (make_room st) = domain st"
  "cacheLimit (make_room st) = cacheLimit st" "logHelper (make_room st) = logHelper st"
  "linuxMajVersion (make_room st) = linuxMajVersion st" "index (make_room st) = index st"
  by (simp_all add: make_room_def cleanup_fields)

lemma insertNew_null_handle: "xci st = 0 \<Longrightarrow> insertNew st e g = (MAP_FAILED_GENERIC, 0, st)"
  by (simp add: insertNew_def)

lemma insertNew_map_failed:
  "xci st \<noteq> 0 \<Longrightarrow> map_result e = 0 \<Longrightarrow>
   insertNew st e g = (MAP_FAILED_GENERIC, 0,
     (make_room st)\<lparr>index := index st + 1, effects := effects (make_room st) @ provider_call st e g\<rparr>)"
  by (simp add: insertNew_def Let_def generateIndex_def make_room_def provider_call_def cleanup_fields)

lemma insertNew_rejected:
  "xci st \<noteq> 0 \<Longrightarrow> map_result e \<noteq> 0 \<Longrightarrow> \<not> admitted st e \<Longrightarrow>
   insertNew st e g = (MAP_PAGE_NOT_PRESENT, 0,
     (make_room st)\<lparr>index := index st + 1,
        effects := effects (make_room st) @ provider_call st e g @ [Mincore (map_result e)]
          @ (if logHelper st then [LogError (CheckPagesFailed g)] else []) @ [Munmap (map_result e)]\<rparr>)"
  by (simp add: insertNew_def Let_def generateIndex_def checkPages_def make_room_def provider_call_def
      admitted_def cleanup_fields)

lemma insertNew_admitted:
  "xci st \<noteq> 0 \<Longrightarrow> map_result e \<noteq> 0 \<Longrightarrow> admitted st e \<Longrightarrow>
   insertNew st e g = (MAP_SUCCESS, map_result e,
     (make_room st)\<lparr>index := index st + 1,
        effects := effects (make_room st) @ provider_call st e g
          @ (if linuxMajVersion st < 4 then [Mincore (map_result e)] else []),
        cache := map_assign g \<lparr>accessed = index st, pointer = map_result e, in_use = 1\<rparr> (cache (make_room st)),
        reverseCache := map_assign (map_result e) g (reverseCache (make_room st))\<rparr>)"
  by (cases "linuxMajVersion st < 4")
    (simp_all add: insertNew_def Let_def generateIndex_def checkPages_def make_room_def provider_call_def
      admitted_def cleanup_fields)

lemma update_null_handle: "xci st = 0 \<Longrightarrow> update st e g = (MAP_FAILED_GENERIC, 0, st)"
  by (simp add: update_def)

lemma update_miss: "xci st \<noteq> 0 \<Longrightarrow> map_find (cache st) g = None \<Longrightarrow> update st e g = insertNew st e g"
  by (simp add: update_def)

lemma update_hit_eq:
  "xci st \<noteq> 0 \<Longrightarrow> map_find (cache st) g = Some ci \<Longrightarrow>
   update st e g = (MAP_SUCCESS, pointer ci,
     st\<lparr>index := index st + 1,
        cache := map_modify g (\<lambda>c. c\<lparr>accessed := index st, in_use := in_use c + 1\<rparr>) (cache st)\<rparr>)"
  by (simp add: update_def Let_def generateIndex_def)

lemma admitted_maps_to: "admitted st (maps_to p)"
  by (simp add: admitted_def maps_to_def)

subsection \<open>Acquiring and releasing at once\<close>

lemma map_modify_absent: "k \<notin> fst ` set m \<Longrightarrow> map_modify k f m = m"
  by (induction m) (auto simp: map_modify_def)

lemma map_modify_assign:
  "k \<notin> fst ` set m \<Longrightarrow> map_modify k f (map_assign k v m) = map_assign k (f v) m"
proof (induction m)
  case Nil
  then show ?case by (simp add: map_modify_def)
next
  case (Cons e m)
  then have k: "k \<noteq> fst e" "k \<notin> fst ` set m" by auto
  have e: "map_modify k f (e # m) = e # m"
    using Cons.prems by (rule map_modify_absent)
  have c: "map_modify k f (x # xs) = (if fst x = k then (fst x, f (snd x)) else x) # map_modify k f xs" for x xs
    by (simp add: map_modify_def)
  show ?case
    using k e Cons.IH [OF k(2)] by (auto simp: c)
qed

lemma set_map_assign_new:
  "k \<notin> fst ` set m \<Longrightarrow> set (map_assign k v m) = insert (k, v) (set m)"
  by (induction m) auto

lemma acquire_release_one:
  assumes "xci st \<noteq> 0" "length (cache st) < cacheLimit st"
    "g \<notin> fst ` set (cache st)" "p \<noteq> 0"
  shows "release (snd (snd (update st (maps_to p) g))) p =
     st\<lparr>index := index st + 1,
        effects := effects st @ provider_call st (maps_to p) g
          @ (if linuxMajVersion st < 4 then [Mincore p] else []),
        cache := map_assign g \<lparr>accessed = index st, pointer = p, in_use = 0\<rparr> (cache st),
        reverseCache := map_assign p g (reverseCache st)\<rparr>"
proof -
  have miss: "map_find (cache st) g = None" using assms(3) by (simp add: map_find_None_iff)
  have mr: "make_room st = st" using assms(2) by (simp add: make_room_def)
  have p: "map_result (maps_to p) = p" by (simp add: maps_to_def)
  have "update st (maps_to p) g = insertNew st (maps_to p) g"
    using assms(1) miss by (rule update_miss)
  also note insertNew_admitted [OF assms(1) _ admitted_maps_to, of p g, unfolded p, OF assms(4)]
  finally show ?thesis
    using assms(3) by (simp add: mr release_def map_find_assign map_modify_assign)
qed

lemma map_fst_expected: "map fst (expected a gps) = map fst gps"
  by (induction gps arbitrary: a) auto

lemma acquire_release_fill:
  assumes "xci st \<noteq> 0" "length (cache st) + length gps \<le> cacheLimit st"
    "distinct (map fst gps)" "fst ` set gps \<inter> fst ` set (cache st) = {}"
    "0 \<notin> snd ` set gps" "std_map (cache st)"
  shows "filled st gps (exec st (acquire_release gps))"
  using assms
proof (induction gps arbitrary: st)
  case Nil
  then show ?case by (simp add: filled_def)
next
  case (Cons gp gps)
  obtain g p where gp: "gp = (g, p)" by (cases gp)
  define st1 where "st1 = release (snd (snd (update st (maps_to p) g))) p"
  have g: "g \<notin> fst ` set (cache st)" using Cons.prems(4) gp by auto
  have p: "p \<noteq> 0" using Cons.prems(5) gp by auto
  have lt: "length (cache st) < cacheLimit st" using Cons.prems(2) by simp
  have st1: "st1 = st\<lparr>index := index st + 1,
        effects := effects st @ provider_call st (maps_to p) g
          @ (if linuxMajVersion st < 4 then [Mincore p] else []),
        cache := map_assign g \<lparr>accessed = index st, pointer = p, in_use = 0\<rparr> (cache st),
        reverseCache := map_assign p g (reverseCache st)\<rparr>"
    unfolding st1_def using Cons.prems(1) lt g p by (rule acquire_release_one)
  have x1: "xci st1 \<noteq> 0" using Cons.prems(1) by (simp add: st1)
  have l1: "length (cache st1) = Suc (length (cache st))"
    using g by (simp add: st1 length_assign_new)
  have k1: "fst ` set (cache st1) = insert g (fst ` set (cache st))"
    by (simp add: st1 set_map_assign)
  have s1: "set (cache st1) = insert (g, \<lparr>accessed = index st, pointer = p, in_use = 0\<rparr>) (set (cache st))"
    using g by (simp add: st1 set_map_assign_new)
  have m1: "std_map (cache st1)" using Cons.prems(6) by (simp add: st1 std_map_assign)
  have a2: "length (cache st1) + length gps \<le> cacheLimit st1"
    using Cons.prems(2) l1 by (simp add: st1)
  have a3: "distinct (map fst gps)" using Cons.prems(3) by simp
  have a4: "fst ` set gps \<inter> fst ` set (cache st1) = {}"
    using Cons.prems(3,4) gp by (auto simp: k1)
  have a5: "0 \<notin> snd ` set gps" using Cons.prems(5) by auto
  have IH: "filled st1 gps (exec st1 (acquire_release gps))"
    using x1 a2 a3 a4 a5 m1 by (rule Cons.IH)
  have ex: "exec st (acquire_release (gp # gps)) = exec st1 (acquire_release gps)"
    by (simp add: gp st1_def)
  have f1: "xci st1 = xci st" "cacheLimit st1 = cacheLimit st" "linuxMajVersion st1 = linuxMajVersion st"
    "logHelper st1 = logHelper st" "domain st1 = domain st" "index st1 = index st + 1"
    by (simp_all add: st1)
  show ?case
    unfolding ex using IH by (simp add: filled_def f1 s1 l1 gp)
qed

lemma expected_unused: "e \<in> set (expected a gps) \<Longrightarrow> in_use (snd e) = 0"
  by (induction gps arbitrary: a) auto

lemma expected_append:
  "expected a (xs @ ys) = expected a xs @ expected (a + of_nat (length xs)) ys"
  by (induction xs arbitrary: a) (auto simp: algebra_simps)

lemma length_expected: "length (expected a gps) = length gps"
  by (induction gps arbitrary: a) auto

lemma unat_succ:
  fixes a :: "64 word"
  assumes "unat a + 1 < 2 ^ 64"
  shows "unat (a + 1) = unat a + 1"
proof -
  have "unat a + unat (1 :: 64 word) < 2 ^ LENGTH(64)" using assms by simp
  then have "unat (a + 1) = unat a + unat (1 :: 64 word)" by (simp only: unat_add_lem)
  then show ?thesis by simp
qed

lemma expected_accessed_lower:
  "e \<in> set (expected a gps) \<Longrightarrow> unat a + length gps \<le> 2 ^ 64 \<Longrightarrow> a \<le> accessed (snd e)"
proof (induction gps arbitrary: a)
  case Nil
  then show ?case by simp
next
  case (Cons gp gps)
  show ?case
  proof (cases "e \<in> set (expected (a + 1) gps)")
    case True
    then have "gps \<noteq> []" by auto
    with Cons.prems(2) have s: "unat a + 1 < 2 ^ 64" by (cases gps) simp_all
    then have u: "unat (a + 1) = unat a + 1" by (rule unat_succ)
    with Cons.prems(2) have "unat (a + 1) + length gps \<le> 2 ^ 64" by simp
    with True have "a + 1 \<le> accessed (snd e)" by (rule Cons.IH)
    then have "unat (a + 1) \<le> unat (accessed (snd e))" by (simp add: word_le_nat_alt)
    with u show ?thesis by (simp add: word_le_nat_alt)
  next
    case False
    with Cons.prems(1) show ?thesis by auto
  qed
qed

lemma sorted_expected:
  "unat a + length gps \<le> 2 ^ 64 \<Longrightarrow> sorted_wrt (<) (map (\<lambda>e. accessed (snd e)) (expected a gps))"
proof (induction gps arbitrary: a)
  case Nil
  then show ?case by simp
next
  case (Cons gp gps)
  show ?case
  proof (cases "gps = []")
    case True
    then show ?thesis by simp
  next
    case False
    with Cons.prems have s: "unat a + 1 < 2 ^ 64" by (cases gps) simp_all
    then have u: "unat (a + 1) = unat a + 1" by (rule unat_succ)
    with Cons.prems have b: "unat (a + 1) + length gps \<le> 2 ^ 64" by simp
    have "a < accessed (snd e)" if "e \<in> set (expected (a + 1) gps)" for e
    proof -
      from that b have "a + 1 \<le> accessed (snd e)" by (rule expected_accessed_lower)
      then have "unat (a + 1) \<le> unat (accessed (snd e))" by (simp add: word_le_nat_alt)
      with u show ?thesis by (simp add: word_less_nat_alt)
    qed
    with Cons.IH [OF b] show ?thesis by auto
  qed
qed

lemma sorted_key_unique:
  assumes "sorted (map f xs)" "distinct (map f xs)" "sorted (map f ys)" "distinct (map f ys)"
    "set xs = set ys"
  shows "xs = ys"
proof -
  have "set (map f xs) = set (map f ys)" using assms(5) by simp
  with assms(1-4) have "map f xs = map f ys" by (intro sorted_distinct_set_unique)
  moreover have "inj_on f (set xs \<union> set ys)"
    using assms(2,5) by (simp add: distinct_map)
  ultimately show ?thesis by (rule map_inj_on)
qed

lemma filled_candidates:
  assumes f: "filled st gps st'" and e: "cache st = []" and nw: "unat (index st) + length gps \<le> 2 ^ 64"
  shows "candidates st' = map (\<lambda>e. (accessed (snd e), fst e)) (expected (index st) gps)"
proof -
  let ?T = "map (\<lambda>e. (accessed (snd e), fst e)) (expected (index st) gps)"
  from f e have sc: "set (cache st') = set (expected (index st) gps)"
    and lc: "length (cache st') = length gps"
    by (simp_all add: filled_def)
  have all: "{e \<in> set (cache st'). in_use (snd e) < 1} = set (expected (index st) gps)"
    using expected_unused [of _ "index st" gps] by (auto simp: sc)
  have set_eq: "set (candidates st') = set ?T"
    by (simp add: set_candidates all)
  have "filter (\<lambda>e. in_use (snd e) < 1) (cache st') = cache st'"
    using expected_unused [of _ "index st" gps] by (auto simp: filter_id_conv sc)
  then have len: "length (candidates st') = length gps"
    by (simp add: length_candidates lc)
  have mT: "map fst ?T = map (\<lambda>e. accessed (snd e)) (expected (index st) gps)"
    by (simp add: comp_def)
  have sT: "sorted_wrt (<) (map fst ?T)"
    unfolding mT using nw by (rule sorted_expected)
  then have sdT: "sorted (map fst ?T)" "distinct (map fst ?T)"
    by (simp_all add: strict_sorted_iff)
  have "set (map fst (candidates st')) = set (map fst ?T)"
    by (simp only: set_map set_eq)
  then have "card (set (map fst (candidates st'))) = card (set (map fst ?T))"
    by (rule arg_cong)
  also have "\<dots> = length (map fst ?T)" using sdT(2) by (rule distinct_card)
  also have "\<dots> = length (map fst (candidates st'))" by (simp add: len length_expected)
  finally have dc: "distinct (map fst (candidates st'))" by (rule card_distinct)
  from sorted_candidates dc sdT set_eq show ?thesis by (rule sorted_key_unique)
qed

lemma filled_cleanup:
  assumes f: "filled st gps st'" and e: "cache st = []"
  shows "length (cache (cleanup st')) = length gps - min (cacheLimit st div 2) (length gps)"
proof -
  from f e have sc: "set (cache st') = set (expected (index st) gps)"
    and lc: "length (cache st') = length gps" and sm: "std_map (cache st')"
    and cl: "cacheLimit st' = cacheLimit st"
    by (simp_all add: filled_def)
  have "filter (\<lambda>e. in_use (snd e) < 1) (cache st') = cache st'"
    using expected_unused [of _ "index st" gps] by (auto simp: filter_id_conv sc)
  then have "length (victims st') = min (cacheLimit st div 2) (length gps)"
    by (simp add: length_victims lc cl)
  with length_cleanup [OF sm] lc show ?thesis by simp
qed

lemma filled_cleanup_set:
  assumes f: "filled st gps st'" and e: "cache st = []" and nw: "unat (index st) + length gps \<le> 2 ^ 64"
    and d: "distinct (map fst gps)" and n: "n = min (cacheLimit st div 2) (length gps)"
  shows "set (cache (cleanup st')) = set (expected (index st + of_nat n) (drop n gps))"
proof -
  let ?a = "index st"
  from f e have sc: "set (cache st') = set (expected ?a gps)"
    and lc: "length (cache st') = length gps" and sm: "std_map (cache st')"
    and cl: "cacheLimit st' = cacheLimit st"
    by (simp_all add: filled_def)
  note cand = filled_candidates [OF f e nw]
  have q: "quota st' 0 (candidates st') = n"
    by (simp add: quota_def cand length_expected cl n min.commute)
  have "map snd (map (\<lambda>e. (accessed (snd e), fst e)) (expected ?a gps)) = map fst (expected ?a gps)"
    by (simp add: comp_def)
  then have mT: "map snd (candidates st') = map fst gps"
    by (simp only: cand map_fst_expected)
  have "victims st' = take n (candidates st')"
    by (simp only: victims_def q)
  then have "map snd (victims st') = take n (map snd (candidates st'))"
    by (simp only: take_map)
  then have "map snd (victims st') = take n (map fst gps)"
    by (simp only: mT)
  then have "set (map snd (victims st')) = set (take n (map fst gps))"
    by (rule arg_cong)
  then have V: "snd ` set (victims st') = set (take n (map fst gps))"
    by (simp only: set_map)
  have split: "expected ?a gps = expected ?a (take n gps) @ expected (?a + of_nat n) (drop n gps)"
    using expected_append [of ?a "take n gps" "drop n gps"] n by (simp add: min_def)
  have k1: "fst ` set (expected ?a (take n gps)) = set (take n (map fst gps))"
    using map_fst_expected [of ?a "take n gps"] by (metis set_map take_map)
  have k2: "fst ` set (expected (?a + of_nat n) (drop n gps)) = set (drop n (map fst gps))"
    using map_fst_expected [of "?a + of_nat n" "drop n gps"] by (metis set_map drop_map)
  have disj: "set (take n (map fst gps)) \<inter> set (drop n (map fst gps)) = {}"
    using d by (metis append_take_drop_id distinct_append)
  have "set (cache (cleanup st')) = {e \<in> set (expected ?a gps). fst e \<notin> set (take n (map fst gps))}"
    by (simp add: cleanup_char(1) [OF sm] V sc)
  also have "\<dots> = set (expected (?a + of_nat n) (drop n gps))"
  proof -
    let ?A = "set (expected ?a (take n gps))" and ?B = "set (expected (?a + of_nat n) (drop n gps))"
    let ?K = "set (take n (map fst gps))"
    have AB: "set (expected ?a gps) = ?A \<union> ?B"
      by (subst split) simp
    have A: "\<forall>e\<in>?A. fst e \<in> ?K" using k1 by blast
    have B: "\<forall>e\<in>?B. fst e \<notin> ?K" using k2 disj by blast
    show ?thesis unfolding AB using A B by blast
  qed
  finally show ?thesis .
qed

subsection \<open>Duality\<close>

lemma dual_std: "dual st \<Longrightarrow> std_map (cache st)"
  by (simp add: dual_def)

lemma dual_forward: "dual st \<Longrightarrow> map_find (cache st) g = Some ci \<Longrightarrow> map_find (reverseCache st) (pointer ci) = Some g"
  by (simp add: dual_def)

lemma dual_backward:
  "dual st \<Longrightarrow> map_find (reverseCache st) p = Some g \<Longrightarrow> \<exists>ci. map_find (cache st) g = Some ci \<and> pointer ci = p"
  by (simp add: dual_def)

lemma dual_maps:
  "cache st' = cache st \<Longrightarrow> reverseCache st' = reverseCache st \<Longrightarrow> dual st' = dual st"
  by (simp add: dual_def)

lemma dual_victim_pointer:
  assumes "dual st" "t \<in> set (victims st)"
  shows "map_find (reverseCache st) (victim_pointer st t) = Some (snd t)"
proof -
  from assms(2) have "t \<in> set (candidates st)" using victims_sub by auto
  from candidates_found [OF dual_std [OF assms(1)] this]
  obtain ci where ci: "map_find (cache st) (snd t) = Some ci" by auto
  then have "victim_pointer st t = pointer ci" by (simp add: victim_pointer_def)
  with dual_forward [OF assms(1) ci] show ?thesis by simp
qed

lemma dual_cleanup:
  assumes "dual st"
  shows "dual (cleanup st)"
proof -
  note sm = dual_std [OF assms]
  let ?V = "snd ` set (victims st)" and ?P = "victim_pointer st ` set (victims st)"
  have c: "map_find (cache (cleanup st)) g = (if g \<in> ?V then None else map_find (cache st) g)" for g
    by (rule cleanup_find [OF sm])
  have r: "map_find (reverseCache (cleanup st)) p = (if p \<in> ?P then None else map_find (reverseCache st) p)" for p
    by (simp add: cleanup_char(2) [OF sm] map_find_filter_keys)
  have m1: "std_map (cache (cleanup st))"
    using sm by (simp add: cleanup_char(1) [OF sm] std_map_filter)
  have m2: "std_map (reverseCache (cleanup st))"
    using assms by (simp add: cleanup_char(2) [OF sm] std_map_filter dual_def)
  have fw: "map_find (reverseCache (cleanup st)) (pointer ci) = Some g"
    if "map_find (cache (cleanup st)) g = Some ci" for g ci
  proof -
    from that have g: "g \<notin> ?V" "map_find (cache st) g = Some ci"
      by (simp_all add: c split: if_splits)
    from dual_forward [OF assms g(2)] have rg: "map_find (reverseCache st) (pointer ci) = Some g" .
    have "pointer ci \<notin> ?P"
    proof
      assume "pointer ci \<in> ?P"
      then obtain t where t: "t \<in> set (victims st)" "pointer ci = victim_pointer st t" by auto
      from dual_victim_pointer [OF assms t(1)] t(2) rg have "snd t = g" by simp
      with t(1) g(1) show False by auto
    qed
    with rg show ?thesis by (simp add: r)
  qed
  have bw: "\<exists>ci. map_find (cache (cleanup st)) g = Some ci \<and> pointer ci = p"
    if "map_find (reverseCache (cleanup st)) p = Some g" for p g
  proof -
    from that have p: "p \<notin> ?P" "map_find (reverseCache st) p = Some g"
      by (simp_all add: r split: if_splits)
    from dual_backward [OF assms p(2)]
    obtain ci where ci: "map_find (cache st) g = Some ci" "pointer ci = p" by auto
    have "g \<notin> ?V"
    proof
      assume "g \<in> ?V"
      then obtain t where t: "t \<in> set (victims st)" "snd t = g" by auto
      then have "victim_pointer st t = p" using ci by (simp add: victim_pointer_def)
      with t(1) p(1) show False by auto
    qed
    with ci show ?thesis by (simp add: c)
  qed
  from m1 m2 fw bw show ?thesis unfolding dual_def by blast
qed

lemma dual_make_room: "dual st \<Longrightarrow> dual (make_room st)"
  by (simp add: make_room_def dual_cleanup)

lemma make_room_find_None:
  assumes "std_map (cache st)" "map_find (cache st) g = None"
  shows "map_find (cache (make_room st)) g = None"
  using assms by (simp add: make_room_def cleanup_find)

lemma dual_modify:
  assumes "dual st" "cache st' = map_modify g f (cache st)" "reverseCache st' = reverseCache st"
    "\<And>c. pointer (f c) = pointer c"
  shows "dual st'"
proof -
  have c: "map_find (cache st') k = (if k = g then map_option f (map_find (cache st) g) else map_find (cache st) k)" for k
    by (simp add: assms(2) map_find_modify)
  have m1: "std_map (cache st')" using assms(1) by (simp add: assms(2) std_map_modify dual_def)
  have m2: "std_map (reverseCache st')" using assms(1) by (simp add: assms(3) dual_def)
  have fw: "map_find (reverseCache st') (pointer ci) = Some k" if "map_find (cache st') k = Some ci" for k ci
  proof (cases "k = g")
    case True
    with that obtain c0 where "map_find (cache st) g = Some c0" "ci = f c0"
      by (auto simp: c)
    with dual_forward [OF assms(1), of g c0] True assms(4) [of c0] show ?thesis
      by (simp add: assms(3))
  next
    case False
    with that dual_forward [OF assms(1), of k ci] show ?thesis by (simp add: c assms(3))
  qed
  have bw: "\<exists>ci. map_find (cache st') k = Some ci \<and> pointer ci = p"
    if "map_find (reverseCache st') p = Some k" for p k
  proof -
    from that dual_backward [OF assms(1), of p k]
    obtain c0 where c0: "map_find (cache st) k = Some c0" "pointer c0 = p"
      by (auto simp: assms(3))
    show ?thesis
    proof (cases "k = g")
      case True
      with c0 assms(4) [of c0] show ?thesis by (simp add: c)
    next
      case False
      with c0 show ?thesis by (simp add: c)
    qed
  qed
  from m1 m2 fw bw show ?thesis unfolding dual_def by blast
qed

lemma dual_insert:
  assumes "dual st" "map_find (cache st) g = None" "p \<notin> mapped_pointers st"
    "cache st' = map_assign g ci (cache st)" "reverseCache st' = map_assign p g (reverseCache st)"
    "pointer ci = p"
  shows "dual st'"
proof -
  have c: "map_find (cache st') k = (if k = g then Some ci else map_find (cache st) k)" for k
    by (simp add: assms(4) map_find_assign)
  have r: "map_find (reverseCache st') q = (if q = p then Some g else map_find (reverseCache st) q)" for q
    by (simp add: assms(5) map_find_assign)
  have m1: "std_map (cache st')" using assms(1) by (simp add: assms(4) std_map_assign dual_def)
  have m2: "std_map (reverseCache st')" using assms(1) by (simp add: assms(5) std_map_assign dual_def)
  have fresh: "pointer c0 \<noteq> p" if "map_find (cache st) k = Some c0" for k c0
  proof -
    from that have "(k, c0) \<in> set (cache st)" by (rule map_find_Some_mem)
    then have "pointer (snd (k, c0)) \<in> mapped_pointers st"
      unfolding mapped_pointers_def by (rule imageI)
    with assms(3) show ?thesis by auto
  qed
  have fw: "map_find (reverseCache st') (pointer c0) = Some k" if "map_find (cache st') k = Some c0" for k c0
  proof (cases "k = g")
    case True
    with that assms(6) show ?thesis by (simp add: c r)
  next
    case False
    with that have k: "map_find (cache st) k = Some c0" by (simp add: c)
    from fresh [OF k] dual_forward [OF assms(1) k] show ?thesis by (simp add: r)
  qed
  have bw: "\<exists>c0. map_find (cache st') k = Some c0 \<and> pointer c0 = q"
    if "map_find (reverseCache st') q = Some k" for q k
  proof (cases "q = p")
    case True
    with that assms(6) show ?thesis by (simp add: c r)
  next
    case False
    with that have "map_find (reverseCache st) q = Some k" by (simp add: r)
    from dual_backward [OF assms(1) this]
    obtain c0 where c0: "map_find (cache st) k = Some c0" "pointer c0 = q" by auto
    with assms(2) have "k \<noteq> g" by auto
    with c0 show ?thesis by (simp add: c)
  qed
  from m1 m2 fw bw show ?thesis unfolding dual_def by blast
qed

lemma dual_insertNew:
  assumes "dual st" "map_find (cache st) g = None"
    "xci st = 0 \<or> map_result e \<notin> mapped_pointers (make_room st)"
  shows "dual (snd (snd (insertNew st e g)))"
proof (cases "xci st = 0")
  case True
  with assms(1) show ?thesis by (simp add: insertNew_null_handle)
next
  case x: False
  note dm = dual_make_room [OF assms(1)]
  show ?thesis
  proof (cases "map_result e = 0")
    case True
    have "dual ((make_room st)\<lparr>index := index st + 1, effects := effects (make_room st) @ provider_call st e g\<rparr>) = dual (make_room st)"
      by (rule dual_maps) simp_all
    with dm show ?thesis by (simp add: insertNew_map_failed [OF x True])
  next
    case p: False
    show ?thesis
    proof (cases "admitted st e")
      case True
      let ?st' = "snd (snd (insertNew st e g))"
      note eq = insertNew_admitted [OF x p True, of g]
      have a: "map_find (cache (make_room st)) g = None"
        using dual_std [OF assms(1)] assms(2) by (rule make_room_find_None)
      have b: "map_result e \<notin> mapped_pointers (make_room st)" using assms(3) x by simp
      have c: "cache ?st' = map_assign g \<lparr>accessed = index st, pointer = map_result e, in_use = 1\<rparr> (cache (make_room st))"
        by (simp add: eq)
      have d: "reverseCache ?st' = map_assign (map_result e) g (reverseCache (make_room st))"
        by (simp add: eq)
      have f: "pointer \<lparr>accessed = index st, pointer = map_result e, in_use = 1\<rparr> = map_result e"
        by simp
      from dm a b c d f show ?thesis by (rule dual_insert)
    next
      case False
      have "dual (snd (snd (insertNew st e g))) = dual (make_room st)"
        by (rule dual_maps) (simp_all add: insertNew_rejected [OF x p False])
      with dm show ?thesis by simp
    qed
  qed
qed

lemma dual_update:
  assumes "dual st" "provider_fresh st (Update e g)"
  shows "dual (snd (snd (update st e g)))"
proof (cases "xci st = 0")
  case True
  with assms(1) show ?thesis by (simp add: update_null_handle)
next
  case x: False
  show ?thesis
  proof (cases "map_find (cache st) g")
    case None
    with assms(2) x have "xci st = 0 \<or> map_result e \<notin> mapped_pointers (make_room st)" by simp
    with assms(1) None have "dual (snd (snd (insertNew st e g)))" by (rule dual_insertNew)
    then show ?thesis by (simp add: update_miss [OF x None])
  next
    case (Some ci)
    show ?thesis
      by (rule dual_modify [OF assms(1), where g = g and f = "\<lambda>c. c\<lparr>accessed := index st, in_use := in_use c + 1\<rparr>"])
         (simp_all add: update_hit_eq [OF x Some])
  qed
qed

lemma dual_release: "dual st \<Longrightarrow> dual (release st p)"
proof -
  assume d: "dual st"
  show ?thesis
  proof (cases "map_find (reverseCache st) p")
    case None
    with d show ?thesis by (simp add: release_def)
  next
    case (Some g)
    show ?thesis
    proof (cases "map_find (cache st) g")
      case None
      with Some d show ?thesis by (simp add: release_def)
    next
      case ci: (Some ci)
      show ?thesis
        by (rule dual_modify [OF d, where g = g and f = "\<lambda>c. c\<lparr>in_use := in_use c - 1\<rparr>"])
           (simp_all add: release_def Some ci)
    qed
  qed
qed

lemma dual_destroy: "dual (destroy st)"
  by (simp add: dual_def destroy_def std_map_def map_find_def)

lemma dual_exec_op: "dual st \<Longrightarrow> provider_fresh st x \<Longrightarrow> dual (exec_op st x)"
proof (cases x)
  case (Update e g)
  assume "dual st" "provider_fresh st x"
  with Update show ?thesis by (simp add: dual_update)
next
  case (Release p)
  assume "dual st"
  with Release show ?thesis by (simp add: dual_release)
next
  case (SetLimit n)
  assume d: "dual st"
  have "dual (snd (setLimit st n)) = dual st"
    by (rule dual_maps) (simp_all add: setLimit_def)
  with d SetLimit show ?thesis by simp
next
  case (Init h d osrelease)
  assume ds: "dual st"
  have "dual (init st h d osrelease) = dual st"
    by (rule dual_maps) (simp_all add: init_def Let_def split: option.splits)
  with ds Init show ?thesis by simp
next
  case Cleanup
  assume "dual st"
  with Cleanup show ?thesis by (simp add: dual_cleanup)
next
  case Destroy
  then show ?thesis by (simp add: dual_destroy)
qed

lemma dual_exec: "dual st \<Longrightarrow> env_ok st ops \<Longrightarrow> dual (exec st ops)"
  by (induction ops arbitrary: st) (auto intro: dual_exec_op)

lemma dual_XenPageCache: "dual (XenPageCache dflt lh idx)"
  by (simp add: dual_def XenPageCache_def std_map_def map_find_def)

subsection \<open>Counts\<close>

lemma counts_ok_std: "counts_ok st \<Longrightarrow> std_map (cache st)"
  by (simp add: counts_ok_def)

lemma counts_ok_cache: "cache st' = cache st \<Longrightarrow> counts_ok st' = counts_ok st"
  by (simp add: counts_ok_def)

lemma counts_ok_find: "counts_ok st \<Longrightarrow> map_find (cache st) g = Some ci \<Longrightarrow> 0 \<le> in_use ci"
proof -
  assume c: "counts_ok st" and f: "map_find (cache st) g = Some ci"
  from f have "(g, ci) \<in> set (cache st)" by (rule map_find_Some_mem)
  moreover from c have "\<forall>e\<in>set (cache st). 0 \<le> in_use (snd e)"
    by (simp add: counts_ok_def list_all_iff)
  ultimately have "0 \<le> in_use (snd (g, ci))" by blast
  then show ?thesis by simp
qed

lemma counts_ok_cleanup: "counts_ok st \<Longrightarrow> counts_ok (cleanup st)"
  by (simp add: counts_ok_def cleanup_char(1) std_map_filter list_all_iff)

lemma counts_ok_make_room: "counts_ok st \<Longrightarrow> counts_ok (make_room st)"
  by (simp add: make_room_def counts_ok_cleanup)

lemma counts_ok_assign:
  assumes "counts_ok st" "cache st' = map_assign g ci (cache st)" "0 \<le> in_use ci"
  shows "counts_ok st'"
proof -
  have "std_map (cache st')" using assms(1,2) by (simp add: counts_ok_def std_map_assign)
  moreover have "\<forall>e\<in>set (cache st'). 0 \<le> in_use (snd e)"
    using assms set_map_assign_sub [of g ci "cache st"] by (auto simp: counts_ok_def list_all_iff)
  ultimately show ?thesis by (simp add: counts_ok_def list_all_iff)
qed

lemma counts_ok_modify:
  assumes "counts_ok st" "cache st' = map_modify g f (cache st)"
    "\<And>ci. map_find (cache st) g = Some ci \<Longrightarrow> 0 \<le> in_use (f ci)"
  shows "counts_ok st'"
proof -
  have sm: "std_map (cache st)" using assms(1) by (rule counts_ok_std)
  let ?h = "\<lambda>e. if fst e = g then (fst e, f (snd e)) else e"
  have m: "std_map (cache st')" using sm by (simp add: assms(2) std_map_modify)
  have h: "0 \<le> in_use (snd (?h e))"
    if e: "e \<in> set (cache st)" for e
  proof (cases "fst e = g")
    case True
    from e have "(fst e, snd e) \<in> set (cache st)" by simp
    with sm have "map_find (cache st) (fst e) = Some (snd e)"
      by (intro map_find_mem std_map_distinct)
    with True assms(3) [of "snd e"] show ?thesis by simp
  next
    case False
    with e assms(1) show ?thesis by (simp add: counts_ok_def list_all_iff)
  qed
  have "\<forall>x\<in>set (map ?h (cache st)). 0 \<le> in_use (snd x)"
  proof
    fix x assume "x \<in> set (map ?h (cache st))"
    then have "x \<in> ?h ` set (cache st)" by (simp only: set_map)
    then obtain e where "e \<in> set (cache st)" "x = ?h e" by (rule imageE)
    with h [of e] show "0 \<le> in_use (snd x)" by simp
  qed
  then have "list_all (\<lambda>e. 0 \<le> in_use (snd e)) (cache st')"
    by (simp only: list_all_iff assms(2) map_modify_def)
  with m show ?thesis by (simp add: counts_ok_def)
qed

lemma counts_ok_insertNew: "counts_ok st \<Longrightarrow> counts_ok (snd (snd (insertNew st e g)))"
proof -
  assume c: "counts_ok st"
  note m = counts_ok_make_room [OF c]
  show ?thesis
  proof (cases "xci st = 0")
    case True
    with c show ?thesis by (simp add: insertNew_null_handle)
  next
    case x: False
    show ?thesis
    proof (cases "map_result e = 0")
      case True
      have "counts_ok (snd (snd (insertNew st e g))) = counts_ok (make_room st)"
        by (rule counts_ok_cache) (simp add: insertNew_map_failed [OF x True])
      with m show ?thesis by simp
    next
      case p: False
      show ?thesis
      proof (cases "admitted st e")
        case True
        show ?thesis
          by (rule counts_ok_assign [OF m, where g = g
                and ci = "\<lparr>accessed = index st, pointer = map_result e, in_use = 1\<rparr>"])
             (simp_all add: insertNew_admitted [OF x p True])
      next
        case False
        have "counts_ok (snd (snd (insertNew st e g))) = counts_ok (make_room st)"
          by (rule counts_ok_cache) (simp add: insertNew_rejected [OF x p False])
        with m show ?thesis by simp
      qed
    qed
  qed
qed

lemma counts_ok_update: "counts_ok st \<Longrightarrow> counts_ok (snd (snd (update st e g)))"
proof -
  assume c: "counts_ok st"
  show ?thesis
  proof (cases "xci st = 0")
    case True
    with c show ?thesis by (simp add: update_null_handle)
  next
    case x: False
    show ?thesis
    proof (cases "map_find (cache st) g")
      case None
      with c show ?thesis by (simp add: update_miss [OF x None] counts_ok_insertNew)
    next
      case (Some ci)
      have "0 \<le> in_use ci" using c Some by (rule counts_ok_find)
      then show ?thesis
        by (intro counts_ok_modify [OF c, where g = g
              and f = "\<lambda>c. c\<lparr>accessed := index st, in_use := in_use c + 1\<rparr>"])
           (simp_all add: update_hit_eq [OF x Some] Some)
    qed
  qed
qed

lemma counts_ok_release: "counts_ok st \<Longrightarrow> release_held st (Release p) \<Longrightarrow> counts_ok (release st p)"
proof -
  assume c: "counts_ok st" and h: "release_held st (Release p)"
  show ?thesis
  proof (cases "map_find (reverseCache st) p")
    case None
    with c show ?thesis by (simp add: release_def)
  next
    case (Some g)
    show ?thesis
    proof (cases "map_find (cache st) g")
      case None
      with Some c show ?thesis by (simp add: release_def)
    next
      case ci: (Some ci)
      with h Some have "1 \<le> in_use ci" by simp
      then show ?thesis
        by (intro counts_ok_modify [OF c, where g = g and f = "\<lambda>c. c\<lparr>in_use := in_use c - 1\<rparr>"])
           (simp_all add: release_def Some ci)
    qed
  qed
qed

lemma counts_ok_exec_op: "counts_ok st \<Longrightarrow> release_held st x \<Longrightarrow> counts_ok (exec_op st x)"
proof (cases x)
  case (Update e g)
  assume "counts_ok st"
  with Update show ?thesis by (simp add: counts_ok_update)
next
  case (Release p)
  assume "counts_ok st" "release_held st x"
  with Release show ?thesis by (simp add: counts_ok_release)
next
  case (SetLimit n)
  assume c: "counts_ok st"
  have "counts_ok (snd (setLimit st n)) = counts_ok st"
    by (rule counts_ok_cache) (simp add: setLimit_def)
  with c SetLimit show ?thesis by simp
next
  case (Init h d osrelease)
  assume c: "counts_ok st"
  have "counts_ok (init st h d osrelease) = counts_ok st"
    by (rule counts_ok_cache) (simp add: init_def Let_def split: option.splits)
  with c Init show ?thesis by simp
next
  case Cleanup
  assume "counts_ok st"
  with Cleanup show ?thesis by (simp add: counts_ok_cleanup)
next
  case Destroy
  then show ?thesis by (simp add: counts_ok_def destroy_def std_map_def)
qed

lemma counts_ok_exec: "counts_ok st \<Longrightarrow> releases_held st ops \<Longrightarrow> counts_ok (exec st ops)"
proof (induction ops arbitrary: st)
  case Nil
  then show ?case by simp
next
  case (Cons x xs)
  from Cons.prems have "counts_ok (exec_op st x)" by (simp add: counts_ok_exec_op)
  moreover from Cons.prems have "releases_held (exec_op st x) xs" by simp
  ultimately show ?case using Cons.IH by simp
qed

lemma counts_ok_XenPageCache: "counts_ok (XenPageCache dflt lh idx)"
  by (simp add: counts_ok_def XenPageCache_def std_map_def)

lemma release_found:
  "map_find (reverseCache st) p = Some g \<Longrightarrow> map_find (cache st) g = Some ci \<Longrightarrow>
   map_find (cache (release st p)) g = Some (ci\<lparr>in_use := in_use ci - 1\<rparr>)"
  by (simp add: release_def map_find_modify)

subsection \<open>The counter\<close>

lemma calls_append: "calls ev (st\<lparr>effects := effects st0 @ xs\<rparr>) = calls ev st0 + length (filter (\<lambda>x. x = ev) xs)"
  by (simp add: calls_def)

lemma calls_evict: "calls (IncStat n) (snd (evict ti c u st)) = calls (IncStat n) st"
  by (induction ti c u st rule: evict.induct) (auto simp: calls_def split: option.splits)

lemma calls_cleanup: "calls (IncStat n) (cleanup st) = calls (IncStat n) st"
proof -
  have "calls (IncStat n) (cleanup st) = calls (IncStat n) (snd (evict (collect_unused (cache st) []) 0 0 st))"
    by (simp add: cleanup_def Let_def calls_def)
  then show ?thesis by (simp add: calls_evict)
qed

lemma calls_make_room: "calls (IncStat n) (make_room st) = calls (IncStat n) st"
  by (simp add: make_room_def calls_cleanup)

lemma calls_insertNew:
  "xci st \<noteq> 0 \<Longrightarrow>
   calls (IncStat ''xcMapPage'') (snd (snd (insertNew st e g))) = calls (IncStat ''xcMapPage'') st + 1"
proof -
  assume x: "xci st \<noteq> 0"
  have m: "length (filter (\<lambda>x. x = IncStat ''xcMapPage'') (effects (make_room st))) = calls (IncStat ''xcMapPage'') st"
    using calls_make_room [of "''xcMapPage''" st] by (simp add: calls_def)
  show ?thesis
  proof (cases "map_result e = 0")
    case True
    show ?thesis by (simp add: insertNew_map_failed [OF x True] calls_def provider_call_def m)
  next
    case p: False
    show ?thesis
    proof (cases "admitted st e")
      case True
      show ?thesis by (simp add: insertNew_admitted [OF x p True] calls_def provider_call_def m)
    next
      case False
      show ?thesis by (simp add: insertNew_rejected [OF x p False] calls_def provider_call_def m)
    qed
  qed
qed

lemma insertNew_calls_in_order:
  "xci st \<noteq> 0 \<Longrightarrow>
   take 2 (drop (length (effects (make_room st))) (effects (snd (snd (insertNew st e g))))) = provider_call st e g"
proof -
  assume x: "xci st \<noteq> 0"
  show ?thesis
  proof (cases "map_result e = 0")
    case True
    show ?thesis by (simp add: insertNew_map_failed [OF x True] provider_call_def)
  next
    case p: False
    show ?thesis
    proof (cases "admitted st e")
      case True
      show ?thesis by (simp add: insertNew_admitted [OF x p True] provider_call_def)
    next
      case False
      show ?thesis by (simp add: insertNew_rejected [OF x p False] provider_call_def)
    qed
  qed
qed

lemma checkPages_admitted: "fst (checkPages st e a) = admitted st e"
  by (simp add: checkPages_def admitted_def Let_def)

subsection \<open>What cleanup keeps and what it removes\<close>

lemma cleanup_keeps_used:
  assumes "std_map (cache st)" "map_find (cache st) g = Some ci" "0 < in_use ci"
  shows "map_find (cache (cleanup st)) g = Some ci"
proof -
  have "g \<notin> snd ` set (victims st)"
    using victim_unused [OF assms(1) _ assms(2)] assms(3) by fastforce
  with assms(2) show ?thesis by (simp add: cleanup_find [OF assms(1)])
qed

lemma cleanup_adds_nothing:
  "std_map (cache st) \<Longrightarrow> map_find (cache (cleanup st)) g = Some ci \<Longrightarrow> map_find (cache st) g = Some ci"
  by (simp add: cleanup_find split: if_splits)

lemma cleanup_removes_unused:
  assumes "std_map (cache st)" "map_find (cache st) g = Some ci" "map_find (cache (cleanup st)) g = None"
  shows "in_use ci < 1"
proof -
  from assms(2,3) have "g \<in> snd ` set (victims st)"
    by (simp add: cleanup_find [OF assms(1)] split: if_splits)
  from victim_unused [OF assms(1) this assms(2)] show ?thesis by simp
qed

lemma cleanup_oldest_first:
  assumes "std_map (cache st)" "map_find (cache st) g = Some ci" "map_find (cache (cleanup st)) g = None"
    "map_find (cache (cleanup st)) g' = Some ci'" "in_use ci' < 1"
  shows "accessed ci \<le> accessed ci'"
proof -
  note find = cleanup_find [OF assms(1)]
  from assms(2,3) have gv: "g \<in> snd ` set (victims st)" by (simp add: find split: if_splits)
  from victim_unused [OF assms(1) gv assms(2)] have v: "(accessed ci, g) \<in> set (victims st)" by simp
  from assms(4) have g': "g' \<notin> snd ` set (victims st)" "map_find (cache st) g' = Some ci'"
    by (simp_all add: find split: if_splits)
  from candidates_mem [OF g'(2) assms(5)] have c: "(accessed ci', g') \<in> set (candidates st)" .
  from g'(1) have nv: "(accessed ci', g') \<notin> set (victims st)" by force
  from victims_oldest [OF v c nv] show ?thesis by simp
qed

lemma cleanup_count:
  "std_map (cache st) \<Longrightarrow>
   length (cache st) = length (cache (cleanup st))
     + min (cacheLimit st div 2) (length (filter (\<lambda>e. in_use (snd e) < 1) (cache st)))"
  using length_cleanup [of st] by (simp add: length_victims)

lemma sorted_victims: "sorted (map fst (victims st))"
  using sorted_candidates [of st] by (simp add: victims_def take_map [symmetric] sorted_wrt_take)

lemma dual_used_not_victim:
  assumes "dual st" "map_find (cache st) g = Some ci" "0 < in_use ci"
  shows "pointer ci \<notin> victim_pointer st ` set (victims st)"
proof
  assume "pointer ci \<in> victim_pointer st ` set (victims st)"
  then obtain t where t: "t \<in> set (victims st)" "pointer ci = victim_pointer st t" by auto
  from dual_victim_pointer [OF assms(1) t(1)] t(2) dual_forward [OF assms(1,2)]
  have "snd t = g" by simp
  with t(1) have "g \<in> snd ` set (victims st)" by auto
  from victim_unused [OF dual_std [OF assms(1)] this assms(2)] assms(3) show False by simp
qed

lemma cleanup_spares_used_page:
  assumes "dual st" "map_find (cache st) g = Some ci" "0 < in_use ci"
  shows "map_find (reverseCache (cleanup st)) (pointer ci) = Some g"
    and "Munmap (pointer ci) \<notin> set (drop (length (effects st)) (effects (cleanup st)))"
proof -
  note sm = dual_std [OF assms(1)]
  note nv = dual_used_not_victim [OF assms]
  show "map_find (reverseCache (cleanup st)) (pointer ci) = Some g"
    using nv dual_forward [OF assms(1,2)]
    by (simp add: cleanup_char(2) [OF sm] map_find_filter_keys)
  show "Munmap (pointer ci) \<notin> set (drop (length (effects st)) (effects (cleanup st)))"
    using nv by (auto simp: cleanup_char(3) [OF sm])
qed

subsection \<open>The two indices have the same size\<close>

lemma dual_length:
  assumes "dual st"
  shows "length (cache st) = length (reverseCache st)"
proof -
  let ?f = "\<lambda>e. (pointer (snd e), fst e)"
  have dc: "distinct (map fst (cache st))" and dr: "distinct (map fst (reverseCache st))"
    using assms by (simp_all add: dual_def std_map_distinct)
  have sub1: "?f ` set (cache st) \<subseteq> set (reverseCache st)"
  proof
    fix x assume "x \<in> ?f ` set (cache st)"
    then obtain e where e: "e \<in> set (cache st)" "x = ?f e" by (rule imageE)
    from e(1) have "(fst e, snd e) \<in> set (cache st)" by simp
    with dc have "map_find (cache st) (fst e) = Some (snd e)" by (rule map_find_mem)
    from dual_forward [OF assms this] have "(pointer (snd e), fst e) \<in> set (reverseCache st)"
      by (rule map_find_Some_mem)
    with e(2) show "x \<in> set (reverseCache st)" by simp
  qed
  have sub2: "set (reverseCache st) \<subseteq> ?f ` set (cache st)"
  proof
    fix x assume x: "x \<in> set (reverseCache st)"
    then have "(fst x, snd x) \<in> set (reverseCache st)" by simp
    with dr have "map_find (reverseCache st) (fst x) = Some (snd x)" by (rule map_find_mem)
    from dual_backward [OF assms this]
    obtain ci where ci: "map_find (cache st) (snd x) = Some ci" "pointer ci = fst x" by auto
    from ci(1) have "(snd x, ci) \<in> set (cache st)" by (rule map_find_Some_mem)
    then have "?f (snd x, ci) \<in> ?f ` set (cache st)" by (rule imageI)
    with ci(2) show "x \<in> ?f ` set (cache st)" by simp
  qed
  have inj: "inj_on ?f (set (cache st))"
  proof (rule inj_onI)
    fix a b assume a: "a \<in> set (cache st)" and b: "b \<in> set (cache st)" and eq: "?f a = ?f b"
    then have k: "fst a = fst b" by simp
    from a have "(fst a, snd a) \<in> set (cache st)" by simp
    with dc have fa: "map_find (cache st) (fst a) = Some (snd a)" by (rule map_find_mem)
    from b have "(fst b, snd b) \<in> set (cache st)" by simp
    with dc have "map_find (cache st) (fst b) = Some (snd b)" by (rule map_find_mem)
    with fa k have "snd a = snd b" by simp
    with k show "a = b" by (simp add: prod_eq_iff)
  qed
  have "length (cache st) = card (set (cache st))"
    using dc by (simp add: distinct_card distinct_map)
  also have "\<dots> = card (?f ` set (cache st))" using inj by (simp add: card_image)
  also have "?f ` set (cache st) = set (reverseCache st)" using sub1 sub2 by (rule equalityI)
  also have "card (set (reverseCache st)) = length (reverseCache st)"
    using dr by (simp add: distinct_card distinct_map)
  finally show ?thesis .
qed

subsection \<open>The scenario\<close>

lemma scenario_filled:
  assumes "xci st \<noteq> 0" "cache st = []" "length gps \<le> cacheLimit st"
    "distinct (map fst gps)" "0 \<notin> snd ` set gps"
  shows "filled st gps (exec st (acquire_release gps))"
  using assms by (intro acquire_release_fill) (simp_all add: std_map_def)

lemma filled_keys:
  assumes "filled st gps st'" "cache st = []"
  shows "fst ` set (cache st') = fst ` set gps"
proof -
  from assms have "set (cache st') = set (expected (index st) gps)" by (simp add: filled_def)
  then have "fst ` set (cache st') = set (map fst (expected (index st) gps))" by simp
  then show ?thesis by (simp only: map_fst_expected set_map)
qed

lemma filled_unused:
  assumes "filled st gps st'" "cache st = []" "x \<in> set (cache st')"
  shows "in_use (snd x) = 0"
proof -
  from assms have "x \<in> set (expected (index st) gps)" by (simp add: filled_def)
  then show ?thesis by (rule expected_unused)
qed

lemma filled_update_new:
  assumes f: "filled st gps st'" and e: "cache st = []" and x: "xci st \<noteq> 0"
    and full: "cacheLimit st \<le> length gps" and g: "g \<notin> fst ` set gps"
    and p: "map_result e \<noteq> 0" and a: "admitted st e"
  shows "fst (update st' e g) = MAP_SUCCESS"
    and "fst (snd (update st' e g)) = map_result e"
    and "cache (snd (snd (update st' e g))) =
           map_assign g \<lparr>accessed = index st + of_nat (length gps), pointer = map_result e, in_use = 1\<rparr>
             (cache (cleanup st'))"
    and "length (cache (snd (snd (update st' e g)))) = Suc (length (cache (cleanup st')))"
proof -
  from f have x': "xci st' \<noteq> 0" and sm: "std_map (cache st')"
    and i: "index st' = index st + of_nat (length gps)"
    and l: "length (cache st') = length gps + length (cache st)" and cl: "cacheLimit st' = cacheLimit st"
    and v: "linuxMajVersion st' = linuxMajVersion st"
    using x by (simp_all add: filled_def)
  have miss: "map_find (cache st') g = None"
    using g filled_keys [OF f e] by (simp add: map_find_None_iff)
  have mr: "make_room st' = cleanup st'"
    using full l e cl by (simp add: make_room_def)
  have a': "admitted st' e" using a v by (simp add: admitted_def)
  have u: "update st' e g = insertNew st' e g" using x' miss by (rule update_miss)
  note eq = insertNew_admitted [OF x' p a', of g, unfolded mr i]
  show "fst (update st' e g) = MAP_SUCCESS" by (simp add: u eq)
  show "fst (snd (update st' e g)) = map_result e" by (simp add: u eq)
  show c: "cache (snd (snd (update st' e g))) =
           map_assign g \<lparr>accessed = index st + of_nat (length gps), pointer = map_result e, in_use = 1\<rparr>
             (cache (cleanup st'))"
    by (simp add: u eq)
  have "map_find (cache (cleanup st')) g = None"
    using miss by (simp add: cleanup_find [OF sm])
  then have "g \<notin> fst ` set (cache (cleanup st'))" by (simp add: map_find_None_iff)
  then show "length (cache (snd (snd (update st' e g)))) = Suc (length (cache (cleanup st')))"
    by (simp add: c length_assign_new)
qed

lemma fifty_ok: "length fifty = 50" "distinct (map fst fifty)" "0 \<notin> snd ` set fifty" "7 \<notin> fst ` set fifty"
  by (code_simp+)

subsection \<open>Facts of the concrete states\<close>

lemma bound_cache_fields:
  "xci (bound_cache v) = 1" "domain (bound_cache v) = 1" "cacheLimit (bound_cache v) = 50"
  "logHelper (bound_cache v) = True" "linuxMajVersion (bound_cache v) = v"
  "cache (bound_cache v) = []" "reverseCache (bound_cache v) = []"
  "index (bound_cache v) = 0" "effects (bound_cache v) = []"
  by (simp_all add: bound_cache_def setLimit_def XenPageCache_xci_def XenPageCache_def init_def)

lemma three_entries_fields:
  "xci three_entries = 1" "cacheLimit three_entries = 50" "logHelper three_entries = True"
  "index three_entries = 8" "effects three_entries = []"
  "length (cache three_entries) = 3"
  "map_find (cache three_entries) 2 = Some \<lparr>accessed = 3, pointer = 0x2000, in_use = 2\<rparr>"
  "std_map (cache three_entries)"
  by (simp_all add: three_entries_def map_find_def std_map_def)

lemma three_entries_dual: "dual three_entries"
  by (simp add: three_entries_def dual_def std_map_def map_find_def)

lemma three_entries_victims:
  "candidates three_entries = [(5, 3), (7, 1)]"
  "victims three_entries = [(5, 3), (7, 1)]"
  "victim_pointer three_entries (5, 3) = 0x3000" "victim_pointer three_entries (7, 1) = 0x1000"
  "length (filter (\<lambda>e. in_use (snd e) < 1) (cache three_entries)) = 2"
  by (simp_all add: victims_def candidates_def quota_def victim_pointer_def three_entries_def map_find_def)

lemma env_fields:
  "map_result (maps_to p) = p" "mincore_rc (maps_to p) = 0" "mincore_vec (maps_to p) = 1"
  "map_result (maps_absent p) = p" "mincore_rc (maps_absent p) = 0" "mincore_vec (maps_absent p) = 0"
  "map_result map_fails = 0"
  by (simp_all add: maps_to_def maps_absent_def map_fails_def)

lemma admitted_bound_cache:
  "\<not> admitted (bound_cache 3) (maps_absent p)" "admitted (bound_cache 4) (maps_absent p)"
  by (simp_all add: admitted_def bound_cache_fields env_fields)

lemma insertNew_cases:
  fixes st :: state and e :: env
  obtains (null) "xci st = 0"
  | (failed) "xci st \<noteq> 0" "map_result e = 0"
  | (rejected) "xci st \<noteq> 0" "map_result e \<noteq> 0" "\<not> admitted st e"
  | (admitted) "xci st \<noteq> 0" "map_result e \<noteq> 0" "admitted st e"
  by blast

lemma insertNew_status:
  "fst (insertNew st e g) =
     (if xci st = 0 \<or> map_result e = 0 then MAP_FAILED_GENERIC
      else if \<not> admitted st e then MAP_PAGE_NOT_PRESENT else MAP_SUCCESS)"
proof (cases rule: insertNew_cases [where st = st and e = e])
  case null
  then show ?thesis by (simp add: insertNew_null_handle)
next
  case failed
  then show ?thesis by (simp add: insertNew_map_failed)
next
  case rejected
  then show ?thesis by (simp add: insertNew_rejected)
next
  case admitted
  then show ?thesis by (simp add: insertNew_admitted)
qed

lemma insertNew_pointer:
  "fst (snd (insertNew st e g)) = (if fst (insertNew st e g) = MAP_SUCCESS then map_result e else 0)"
proof (cases rule: insertNew_cases [where st = st and e = e])
  case null
  then show ?thesis by (simp add: insertNew_null_handle)
next
  case failed
  then show ?thesis by (simp add: insertNew_map_failed)
next
  case rejected
  then show ?thesis by (simp add: insertNew_rejected)
next
  case admitted
  then show ?thesis by (simp add: insertNew_admitted)
qed

lemma update_pointer:
  "fst (update st e g) \<noteq> MAP_SUCCESS \<Longrightarrow> fst (snd (update st e g)) = 0"
proof (cases "xci st = 0")
  case True
  then show ?thesis by (simp add: update_null_handle)
next
  case x: False
  assume f: "fst (update st e g) \<noteq> MAP_SUCCESS"
  show ?thesis
  proof (cases "map_find (cache st) g")
    case None
    with f x show ?thesis by (simp add: update_miss insertNew_pointer)
  next
    case (Some ci)
    with f x show ?thesis by (simp add: update_hit_eq)
  qed
qed

lemma filled_fifty:
  "filled (bound_cache v) fifty (exec (bound_cache v) (acquire_release fifty))"
  by (rule scenario_filled) (simp_all add: bound_cache_fields fifty_ok)

lemma fifty_cache_length: "length (cache (exec (bound_cache v) (acquire_release fifty))) = 50"
  using filled_fifty [of v] by (simp add: filled_def bound_cache_fields fifty_ok)

lemma fifty_cleanup_length:
  "length (cache (cleanup (exec (bound_cache v) (acquire_release fifty)))) = 25"
  using filled_cleanup [OF filled_fifty [of v]] by (simp add: bound_cache_fields fifty_ok)

lemma fifty_fields:
  "xci (exec (bound_cache v) (acquire_release fifty)) = 1"
  "cacheLimit (exec (bound_cache v) (acquire_release fifty)) = 50"
  "linuxMajVersion (exec (bound_cache v) (acquire_release fifty)) = v"
  "logHelper (exec (bound_cache v) (acquire_release fifty)) = True"
  using filled_fifty [of v] by (simp_all add: filled_def bound_cache_fields)

section \<open>The claims\<close>

text \<open>
  C1. An eviction pass on any cache leaves every entry whose \<open>in_use\<close> is above 0 in
  place and unchanged, and adds nothing. Every entry it removes has \<open>in_use < 1\<close>, and
  its \<open>accessed\<close> is at most that of every unused entry it leaves: the oldest go first.
  It removes \<open>cacheLimit / 2\<close> entries (rounded down), or all the unused ones if they
  are fewer. The pages are unmapped in ascending order of \<open>accessed\<close>. When the two
  indices are duals, the reverse entry of an entry in use stays and its page is not
  unmapped.
\<close>

theorem cleanup_eviction:
  assumes "std_map (cache st)"
  shows "(\<forall>g ci. map_find (cache st) g = Some ci \<and> 0 < in_use ci \<longrightarrow>
            map_find (cache (cleanup st)) g = Some ci)
       \<and> (\<forall>g ci. map_find (cache (cleanup st)) g = Some ci \<longrightarrow> map_find (cache st) g = Some ci)
       \<and> (\<forall>g ci. map_find (cache st) g = Some ci \<and> map_find (cache (cleanup st)) g = None \<longrightarrow>
            in_use ci < 1)
       \<and> (\<forall>g ci g' ci'. map_find (cache st) g = Some ci \<and> map_find (cache (cleanup st)) g = None
            \<and> map_find (cache (cleanup st)) g' = Some ci' \<and> in_use ci' < 1 \<longrightarrow>
            accessed ci \<le> accessed ci')
       \<and> length (cache st) = length (cache (cleanup st))
            + min (cacheLimit st div 2) (length (filter (\<lambda>e. in_use (snd e) < 1) (cache st)))
       \<and> sorted (map fst (victims st))
       \<and> effects (cleanup st) =
            effects st @ map (\<lambda>t. Munmap (victim_pointer st t)) (victims st)
            @ (if logHelper st
               then [LogDebug (length (cache st)) (length (candidates st)) (length (victims st))]
               else [])
       \<and> (dual st \<longrightarrow>
            (\<forall>g ci. map_find (cache st) g = Some ci \<and> 0 < in_use ci \<longrightarrow>
               map_find (reverseCache (cleanup st)) (pointer ci) = Some g
               \<and> Munmap (pointer ci) \<notin> set (drop (length (effects st)) (effects (cleanup st)))))"
proof -
  have p1: "\<forall>g ci. map_find (cache st) g = Some ci \<and> 0 < in_use ci \<longrightarrow>
            map_find (cache (cleanup st)) g = Some ci"
    using cleanup_keeps_used [OF assms] by blast
  have p2: "\<forall>g ci. map_find (cache (cleanup st)) g = Some ci \<longrightarrow> map_find (cache st) g = Some ci"
    using cleanup_adds_nothing [OF assms] by blast
  have p3: "\<forall>g ci. map_find (cache st) g = Some ci \<and> map_find (cache (cleanup st)) g = None \<longrightarrow>
            in_use ci < 1"
    using cleanup_removes_unused [OF assms] by blast
  have p4: "\<forall>g ci g' ci'. map_find (cache st) g = Some ci \<and> map_find (cache (cleanup st)) g = None
            \<and> map_find (cache (cleanup st)) g' = Some ci' \<and> in_use ci' < 1 \<longrightarrow>
            accessed ci \<le> accessed ci'"
    using cleanup_oldest_first [OF assms] by blast
  note p5 = cleanup_count [OF assms]
  note p6 = sorted_victims [of st]
  note p7 = cleanup_char(3) [OF assms]
  have p8: "dual st \<longrightarrow>
            (\<forall>g ci. map_find (cache st) g = Some ci \<and> 0 < in_use ci \<longrightarrow>
               map_find (reverseCache (cleanup st)) (pointer ci) = Some g
               \<and> Munmap (pointer ci) \<notin> set (drop (length (effects st)) (effects (cleanup st))))"
    using cleanup_spares_used_page by blast
  from p1 p2 p3 p4 p5 p6 p7 p8 show ?thesis by blast
qed

theorem cleanup_eviction_witness:
  "std_map (cache three_entries) \<and> dual three_entries
   \<and> map_find (cache (cleanup three_entries)) 2 = Some \<lparr>accessed = 3, pointer = 0x2000, in_use = 2\<rparr>
   \<and> map_find (reverseCache (cleanup three_entries)) 0x2000 = Some 2
   \<and> length (cache (cleanup three_entries)) = 1
   \<and> effects (cleanup three_entries) = [Munmap 0x3000, Munmap 0x1000, LogDebug 3 2 2]"
proof -
  note h = three_entries_fields(8)
  note d = three_entries_dual
  have f: "map_find (cache three_entries) 2 = Some \<lparr>accessed = 3, pointer = 0x2000, in_use = 2\<rparr>
      \<and> 0 < in_use \<lparr>accessed = 3, pointer = 0x2000, in_use = 2\<rparr>"
    by (simp add: three_entries_fields)
  note t = cleanup_eviction [OF h]
  note kept = t [THEN conjunct1, rule_format, OF f]
  note count = t [THEN conjunct2, THEN conjunct2, THEN conjunct2, THEN conjunct2, THEN conjunct1]
  note calls = t [THEN conjunct2, THEN conjunct2, THEN conjunct2, THEN conjunct2, THEN conjunct2,
      THEN conjunct2, THEN conjunct1]
  note spared = t [THEN conjunct2, THEN conjunct2, THEN conjunct2, THEN conjunct2, THEN conjunct2,
      THEN conjunct2, THEN conjunct2, rule_format, OF d f, THEN conjunct1]
  from spared have b: "map_find (reverseCache (cleanup three_entries)) 0x2000 = Some 2"
    by simp
  from count have c: "length (cache (cleanup three_entries)) = 1"
    by (simp add: three_entries_fields three_entries_victims)
  from calls have e: "effects (cleanup three_entries) = [Munmap 0x3000, Munmap 0x1000, LogDebug 3 2 2]"
    by (simp add: three_entries_fields three_entries_victims)
  from h d kept b c e show ?thesis by simp
qed

text \<open>
  C2, as the code has it. With a limit of 50 and an empty cache bound to a provider,
  acquiring and at once releasing 50 distinct gfns leaves 50 entries, all unused. The
  acquire of one more gfn makes \<open>cleanup\<close> remove 25 of them, none younger than one it
  keeps (the 25 first acquired, as long as the clock does not wrap): 25 entries are
  left before the new entry is inserted, 26 after.
\<close>

theorem scenario_capacity_50:
  assumes "xci st \<noteq> 0" "cacheLimit st = 50" "cache st = []"
    "length gps = 50" "distinct (map fst gps)" "0 \<notin> snd ` set gps"
    "g \<notin> fst ` set gps" "map_result e \<noteq> 0" "fst (checkPages st e (map_result e))"
  shows "length (cache (exec st (acquire_release gps))) = 50
     \<and> (\<forall>x\<in>set (cache (exec st (acquire_release gps))). in_use (snd x) = 0)
     \<and> length (cache (cleanup (exec st (acquire_release gps)))) = 25
     \<and> (\<forall>k ci k' ci'. map_find (cache (exec st (acquire_release gps))) k = Some ci
           \<and> map_find (cache (cleanup (exec st (acquire_release gps)))) k = None
           \<and> map_find (cache (cleanup (exec st (acquire_release gps)))) k' = Some ci' \<longrightarrow>
           accessed ci \<le> accessed ci')
     \<and> (unat (index st) + 50 \<le> 2 ^ 64 \<longrightarrow>
           set (cache (cleanup (exec st (acquire_release gps))))
             = set (expected (index st + 25) (drop 25 gps)))
     \<and> fst (update (exec st (acquire_release gps)) e g) = MAP_SUCCESS
     \<and> cache (snd (snd (update (exec st (acquire_release gps)) e g)))
          = map_assign g \<lparr>accessed = index st + 50, pointer = map_result e, in_use = 1\<rparr>
              (cache (cleanup (exec st (acquire_release gps))))
     \<and> length (cache (snd (snd (update (exec st (acquire_release gps)) e g)))) = 26"
proof -
  let ?S = "exec st (acquire_release gps)"
  have f: "filled st gps ?S"
    using assms(1,3) _ assms(5,6) by (rule scenario_filled) (simp add: assms(2,4))
  have sm: "std_map (cache ?S)" using f by (simp add: filled_def)
  have p1: "length (cache ?S) = 50" using f by (simp add: filled_def assms(3,4))
  have p2: "\<forall>x\<in>set (cache ?S). in_use (snd x) = 0"
    using filled_unused [OF f assms(3)] by blast
  have p3: "length (cache (cleanup ?S)) = 25"
    using filled_cleanup [OF f assms(3)] by (simp add: assms(2,4))
  have p4: "\<forall>k ci k' ci'. map_find (cache ?S) k = Some ci
           \<and> map_find (cache (cleanup ?S)) k = None
           \<and> map_find (cache (cleanup ?S)) k' = Some ci' \<longrightarrow> accessed ci \<le> accessed ci'"
  proof (intro allI impI, elim conjE)
    fix k ci k' ci'
    assume a: "map_find (cache ?S) k = Some ci" "map_find (cache (cleanup ?S)) k = None"
      "map_find (cache (cleanup ?S)) k' = Some ci'"
    from cleanup_adds_nothing [OF sm a(3)] have "(k', ci') \<in> set (cache ?S)"
      by (rule map_find_Some_mem)
    from filled_unused [OF f assms(3) this] have "in_use ci' < 1" by simp
    with sm a show "accessed ci \<le> accessed ci'" by (rule cleanup_oldest_first)
  qed
  have p5: "unat (index st) + 50 \<le> 2 ^ 64 \<longrightarrow>
           set (cache (cleanup ?S)) = set (expected (index st + 25) (drop 25 gps))"
  proof
    assume "unat (index st) + 50 \<le> 2 ^ 64"
    then have nw: "unat (index st) + length gps \<le> 2 ^ 64" by (simp add: assms(4))
    have n: "25 = min (cacheLimit st div 2) (length gps)" by (simp add: assms(2,4))
    from filled_cleanup_set [OF f assms(3) nw assms(5) n]
    show "set (cache (cleanup ?S)) = set (expected (index st + 25) (drop 25 gps))" by simp
  qed
  have ad: "admitted st e" using assms(9) by (simp add: checkPages_admitted)
  have full: "cacheLimit st \<le> length gps" by (simp add: assms(2,4))
  note u = filled_update_new [OF f assms(3,1) full assms(7,8) ad]
  have p6: "fst (update ?S e g) = MAP_SUCCESS" by (rule u(1))
  have p7: "cache (snd (snd (update ?S e g)))
          = map_assign g \<lparr>accessed = index st + 50, pointer = map_result e, in_use = 1\<rparr>
              (cache (cleanup ?S))"
    using u(3) by (simp add: assms(4))
  have p8: "length (cache (snd (snd (update ?S e g)))) = 26"
    using u(4) p3 by simp
  from p1 p2 p3 p4 p5 p6 p7 p8 show ?thesis by blast
qed

theorem scenario_capacity_50_witness:
  "xci (bound_cache 3) \<noteq> 0 \<and> cacheLimit (bound_cache 3) = 50 \<and> cache (bound_cache 3) = []
   \<and> length fifty = 50 \<and> distinct (map fst fifty) \<and> 0 \<notin> snd ` set fifty \<and> 7 \<notin> fst ` set fifty
   \<and> fst (checkPages (bound_cache 3) (maps_to 0x100000) 0x100000)
   \<and> length (cache (exec (bound_cache 3) (acquire_release fifty))) = 50
   \<and> fst (update (exec (bound_cache 3) (acquire_release fifty)) (maps_to 0x100000) 7) = MAP_SUCCESS
   \<and> set (cache (cleanup (exec (bound_cache 3) (acquire_release fifty))))
        = set (expected 25 (drop 25 fifty))"
proof -
  have h1: "xci (bound_cache 3) \<noteq> 0" and h2: "cacheLimit (bound_cache 3) = 50"
    and h3: "cache (bound_cache 3) = []"
    by (simp_all add: bound_cache_fields)
  have h8: "map_result (maps_to 0x100000) \<noteq> 0" by (simp add: env_fields)
  have c: "fst (checkPages (bound_cache 3) (maps_to 0x100000) 0x100000)"
    by (simp add: checkPages_admitted admitted_maps_to)
  then have h9: "fst (checkPages (bound_cache 3) (maps_to 0x100000) (map_result (maps_to 0x100000)))"
    by (simp add: env_fields)
  note t = scenario_capacity_50 [OF h1 h2 h3 fifty_ok(1,2,3,4) h8 h9]
  note t1 = t [THEN conjunct1]
  note t5 = t [THEN conjunct2, THEN conjunct2, THEN conjunct2, THEN conjunct2, THEN conjunct1]
  note t6 = t [THEN conjunct2, THEN conjunct2, THEN conjunct2, THEN conjunct2, THEN conjunct2, THEN conjunct1]
  have "unat (index (bound_cache 3)) + 50 \<le> 2 ^ 64" by (simp add: bound_cache_fields)
  with t5 have s: "set (cache (cleanup (exec (bound_cache 3) (acquire_release fifty))))
        = set (expected 25 (drop 25 fifty))"
    by (simp add: bound_cache_fields)
  from h1 h2 h3 fifty_ok c t1 t6 s show ?thesis by simp
qed

text \<open>
  Against C2 as stated (26 entries before the insert, 27 after): in the scenario run on
  a cache limited to 50, with the gfns 100 to 149 and then the gfn 7, the cache holds 25
  entries after the cleanup and 26 after the insert.
\<close>

theorem scenario_sizes_counterexample:
  "length (cache (exec (bound_cache 3) (acquire_release fifty))) = 50
   \<and> length (cache (cleanup (exec (bound_cache 3) (acquire_release fifty)))) = 25
   \<and> length (cache (cleanup (exec (bound_cache 3) (acquire_release fifty)))) \<noteq> 26
   \<and> length (cache (snd (snd (update (exec (bound_cache 3) (acquire_release fifty)) (maps_to 0x100000) 7)))) = 26
   \<and> length (cache (snd (snd (update (exec (bound_cache 3) (acquire_release fifty)) (maps_to 0x100000) 7)))) \<noteq> 27"
proof -
  have x: "xci (bound_cache 3) \<noteq> 0" and e: "cache (bound_cache 3) = []"
    and full: "cacheLimit (bound_cache 3) \<le> length fifty"
    by (simp_all add: bound_cache_fields fifty_ok)
  have p: "map_result (maps_to 0x100000) \<noteq> 0" by (simp add: env_fields)
  note u = filled_update_new(4) [OF filled_fifty e x full fifty_ok(4) p admitted_maps_to]
  from u fifty_cache_length [of 3] fifty_cleanup_length [of 3] show ?thesis by simp
qed

text \<open>
  C3, as the code has it. \<open>release\<close> has no guard: on a pointer the reverse index maps to
  a cached gfn it subtracts one from \<open>in_use\<close> whatever its value, so at 0 it leaves -1;
  on a pointer the reverse index does not hold it changes nothing. In every sequence of
  operations on a new cache in which each \<open>release\<close> reaches an entry whose \<open>in_use\<close> is at
  least 1, or no entry, no \<open>in_use\<close> is ever negative.
\<close>

theorem release_unguarded:
  "(releases_held (XenPageCache dflt lh idx) ops \<longrightarrow>
      (\<forall>g ci. map_find (cache (exec (XenPageCache dflt lh idx) ops)) g = Some ci \<longrightarrow> 0 \<le> in_use ci))
   \<and> (map_find (reverseCache st) p = Some g \<and> map_find (cache st) g = Some ci \<longrightarrow>
        map_find (cache (release st p)) g = Some (ci\<lparr>in_use := in_use ci - 1\<rparr>))
   \<and> (map_find (reverseCache st) p = None \<longrightarrow> release st p = st)"
proof -
  have a: "releases_held (XenPageCache dflt lh idx) ops \<longrightarrow>
      (\<forall>g ci. map_find (cache (exec (XenPageCache dflt lh idx) ops)) g = Some ci \<longrightarrow> 0 \<le> in_use ci)"
    using counts_ok_exec [OF counts_ok_XenPageCache] counts_ok_find by blast
  have b: "map_find (reverseCache st) p = Some g \<and> map_find (cache st) g = Some ci \<longrightarrow>
        map_find (cache (release st p)) g = Some (ci\<lparr>in_use := in_use ci - 1\<rparr>)"
    using release_found by blast
  have c: "map_find (reverseCache st) p = None \<longrightarrow> release st p = st"
    by (simp add: release_def)
  from a b c show ?thesis by blast
qed

theorem release_unguarded_witness:
  "releases_held (XenPageCache 1536 True 0)
     [Init 1 1 (Some 4), Update (maps_to 0x1000) 5, Update (maps_to 0x2000) 5, Release 0x1000, Release 0x1000]
   \<and> map_find (cache (exec (XenPageCache 1536 True 0)
        [Init 1 1 (Some 4), Update (maps_to 0x1000) 5, Update (maps_to 0x2000) 5, Release 0x1000, Release 0x1000])) 5
      = Some \<lparr>accessed = 1, pointer = 0x1000, in_use = 0\<rparr>
   \<and> 0 \<le> in_use \<lparr>accessed = 1, pointer = 0x1000, in_use = 0\<rparr>
   \<and> map_find (reverseCache three_entries) 0x1000 = Some 1
   \<and> map_find (cache three_entries) 1 = Some \<lparr>accessed = 7, pointer = 0x1000, in_use = 0\<rparr>
   \<and> map_find (cache (release three_entries 0x1000)) 1 = Some \<lparr>accessed = 7, pointer = 0x1000, in_use = - 1\<rparr>"
proof -
  let ?ops = "[Init 1 1 (Some 4), Update (maps_to 0x1000) 5, Update (maps_to 0x2000) 5, Release 0x1000, Release 0x1000]"
  have h: "releases_held (XenPageCache 1536 True 0) ?ops"
    by code_simp
  have f: "map_find (cache (exec (XenPageCache 1536 True 0) ?ops)) 5
      = Some \<lparr>accessed = 1, pointer = 0x1000, in_use = 0\<rparr>"
    by code_simp
  note t = release_unguarded [of 1536 True 0 ?ops three_entries "0x1000" 1
      "\<lparr>accessed = 7, pointer = 0x1000, in_use = 0\<rparr>"]
  note t1 = t [THEN conjunct1, rule_format, OF h f]
  have r: "map_find (reverseCache three_entries) 0x1000 = Some 1"
    and c: "map_find (cache three_entries) 1 = Some \<lparr>accessed = 7, pointer = 0x1000, in_use = 0\<rparr>"
    by (simp_all add: three_entries_def map_find_def)
  note t2 = t [THEN conjunct2, THEN conjunct1, rule_format, OF conjI [OF r c]]
  from t2 have m: "map_find (cache (release three_entries 0x1000)) 1 = Some \<lparr>accessed = 7, pointer = 0x1000, in_use = - 1\<rparr>"
    by simp
  from h f t1 r c m show ?thesis by simp
qed

text \<open>
  Against C3 as stated (the count is clamped at zero): a gfn is acquired once and its
  pointer released twice; the second release finds \<open>in_use\<close> at 0 and leaves -1.
\<close>

theorem release_below_zero:
  "map_find (cache (exec (bound_cache 4) [Update (maps_to 0x1000) 5, Release 0x1000])) 5
      = Some \<lparr>accessed = 0, pointer = 0x1000, in_use = 0\<rparr>
   \<and> map_find (cache (exec (bound_cache 4) [Update (maps_to 0x1000) 5, Release 0x1000, Release 0x1000])) 5
      = Some \<lparr>accessed = 0, pointer = 0x1000, in_use = - 1\<rparr>"
proof -
  let ?s1 = "release (snd (snd (update (bound_cache 4) (maps_to 0x1000) 5))) 0x1000"
  have one: "?s1 = (bound_cache 4)\<lparr>index := index (bound_cache 4) + 1,
        effects := effects (bound_cache 4) @ provider_call (bound_cache 4) (maps_to 0x1000) 5
          @ (if linuxMajVersion (bound_cache 4) < 4 then [Mincore 0x1000] else []),
        cache := map_assign 5 \<lparr>accessed = index (bound_cache 4), pointer = 0x1000, in_use = 0\<rparr> (cache (bound_cache 4)),
        reverseCache := map_assign 0x1000 5 (reverseCache (bound_cache 4))\<rparr>"
    by (rule acquire_release_one) (simp_all add: bound_cache_fields)
  have c: "map_find (cache ?s1) 5 = Some \<lparr>accessed = 0, pointer = 0x1000, in_use = 0\<rparr>"
    by (simp add: one map_find_def bound_cache_fields)
  have r: "map_find (reverseCache ?s1) 0x1000 = Some 5"
    by (simp add: one map_find_def bound_cache_fields)
  from release_found [OF r c]
  have "map_find (cache (release ?s1 0x1000)) 5 = Some \<lparr>accessed = 0, pointer = 0x1000, in_use = - 1\<rparr>"
    by simp
  with c show ?thesis by simp
qed

text \<open>
  C4. Starting from a new cache, after any sequence of \<open>update\<close>, \<open>release\<close>,
  \<open>setLimit\<close>, \<open>init\<close>, \<open>cleanup\<close> and destructor calls in which the provider never returns
  the address of a page the cache still holds mapped, the two indices are duals: both
  are maps, every forward entry has its reverse entry, every reverse entry its forward
  entry, and they have the same number of entries.
\<close>

theorem index_duality:
  assumes "env_ok (XenPageCache dflt lh idx) ops"
  shows "dual (exec (XenPageCache dflt lh idx) ops)
       \<and> length (cache (exec (XenPageCache dflt lh idx) ops))
           = length (reverseCache (exec (XenPageCache dflt lh idx) ops))"
proof -
  have "dual (exec (XenPageCache dflt lh idx) ops)"
    using dual_XenPageCache assms by (rule dual_exec)
  then show ?thesis by (simp add: dual_length)
qed

theorem index_duality_witness:
  "env_ok (XenPageCache 1536 True 0)
     [Init 1 1 (Some 3), Update (maps_to 0x1000) 5, Update (maps_to 0x2000) 6, Release 0x1000,
      Cleanup, Update (maps_absent 0x1000) 7, Update (maps_to 0x1000) 5]
   \<and> dual (exec (XenPageCache 1536 True 0)
     [Init 1 1 (Some 3), Update (maps_to 0x1000) 5, Update (maps_to 0x2000) 6, Release 0x1000,
      Cleanup, Update (maps_absent 0x1000) 7, Update (maps_to 0x1000) 5])
   \<and> map fst (cache (exec (XenPageCache 1536 True 0)
     [Init 1 1 (Some 3), Update (maps_to 0x1000) 5, Update (maps_to 0x2000) 6, Release 0x1000,
      Cleanup, Update (maps_absent 0x1000) 7, Update (maps_to 0x1000) 5])) = [5, 6]
   \<and> reverseCache (exec (XenPageCache 1536 True 0)
     [Init 1 1 (Some 3), Update (maps_to 0x1000) 5, Update (maps_to 0x2000) 6, Release 0x1000,
      Cleanup, Update (maps_absent 0x1000) 7, Update (maps_to 0x1000) 5]) = [(0x1000, 5), (0x2000, 6)]"
proof -
  let ?ops = "[Init 1 1 (Some 3), Update (maps_to 0x1000) 5, Update (maps_to 0x2000) 6, Release 0x1000,
      Cleanup, Update (maps_absent 0x1000) 7, Update (maps_to 0x1000) 5]"
  have h: "env_ok (XenPageCache 1536 True 0) ?ops"
    by code_simp
  have k: "map fst (cache (exec (XenPageCache 1536 True 0) ?ops)) = [5, 6]"
    by code_simp
  have r: "reverseCache (exec (XenPageCache 1536 True 0) ?ops) = [(0x1000, 5), (0x2000, 6)]"
    by code_simp
  from h k r index_duality [OF h, THEN conjunct1] show ?thesis by simp
qed

text \<open>
  C5, as the code has it. When \<open>checkPages\<close> rejects the page the provider has just
  mapped, \<open>insertNew\<close> returns \<open>MAP_PAGE_NOT_PRESENT\<close> and a null pointer, and inserts
  nothing: both indices are as the cleanup left them, which runs before the mapping is
  made when the cache has reached its limit; below the limit they are unchanged. After
  the provider call it calls \<open>mincore\<close>, the log helper if there is one, and \<open>munmap\<close> on
  the mapping, once.
\<close>

theorem insertNew_rejected_mapping:
  assumes "xci st \<noteq> 0" "map_result e \<noteq> 0" "\<not> fst (checkPages st e (map_result e))"
  shows "fst (insertNew st e g) = MAP_PAGE_NOT_PRESENT
       \<and> fst (snd (insertNew st e g)) = 0
       \<and> cache (snd (snd (insertNew st e g))) = cache (make_room st)
       \<and> reverseCache (snd (snd (insertNew st e g))) = reverseCache (make_room st)
       \<and> effects (snd (snd (insertNew st e g))) =
           effects (make_room st)
           @ [IncStat ''xcMapPage'', XcMapForeignRange (domain st) g (map_result e),
              Mincore (map_result e)]
           @ (if logHelper st then [LogError (CheckPagesFailed g)] else [])
           @ [Munmap (map_result e)]
       \<and> (length (cache st) < cacheLimit st \<longrightarrow>
            cache (snd (snd (insertNew st e g))) = cache st
            \<and> reverseCache (snd (snd (insertNew st e g))) = reverseCache st)"
proof -
  have r: "\<not> admitted st e" using assms(3) by (simp add: checkPages_admitted)
  note eq = insertNew_rejected [OF assms(1,2) r, of g]
  show ?thesis by (simp add: eq provider_call_def make_room_def)
qed

theorem insertNew_rejected_mapping_witness:
  "xci (bound_cache 3) \<noteq> 0 \<and> map_result (maps_absent 0x1000) \<noteq> 0
   \<and> \<not> fst (checkPages (bound_cache 3) (maps_absent 0x1000) (map_result (maps_absent 0x1000)))
   \<and> fst (insertNew (bound_cache 3) (maps_absent 0x1000) 5) = MAP_PAGE_NOT_PRESENT
   \<and> fst (snd (insertNew (bound_cache 3) (maps_absent 0x1000) 5)) = 0
   \<and> cache (snd (snd (insertNew (bound_cache 3) (maps_absent 0x1000) 5))) = []
   \<and> reverseCache (snd (snd (insertNew (bound_cache 3) (maps_absent 0x1000) 5))) = []
   \<and> effects (snd (snd (insertNew (bound_cache 3) (maps_absent 0x1000) 5))) =
       [IncStat ''xcMapPage'', XcMapForeignRange 1 5 0x1000, Mincore 0x1000,
        LogError (CheckPagesFailed 5), Munmap 0x1000]"
proof -
  have h1: "xci (bound_cache 3) \<noteq> 0" by (simp add: bound_cache_fields)
  have h2: "map_result (maps_absent 0x1000) \<noteq> 0" by (simp add: env_fields)
  have h3: "\<not> fst (checkPages (bound_cache 3) (maps_absent 0x1000) (map_result (maps_absent 0x1000)))"
    by (simp add: checkPages_admitted admitted_bound_cache)
  have m: "make_room (bound_cache 3) = bound_cache 3"
    by (simp add: make_room_def bound_cache_fields)
  note t = insertNew_rejected_mapping [OF h1 h2 h3, of 5]
  note t1 = t [THEN conjunct1]
  note t2 = t [THEN conjunct2, THEN conjunct1]
  note t3 = t [THEN conjunct2, THEN conjunct2, THEN conjunct1]
  note t4 = t [THEN conjunct2, THEN conjunct2, THEN conjunct2, THEN conjunct1]
  note t5 = t [THEN conjunct2, THEN conjunct2, THEN conjunct2, THEN conjunct2, THEN conjunct1]
  from t3 have c: "cache (snd (snd (insertNew (bound_cache 3) (maps_absent 0x1000) 5))) = []"
    by (simp add: m bound_cache_fields)
  from t4 have r: "reverseCache (snd (snd (insertNew (bound_cache 3) (maps_absent 0x1000) 5))) = []"
    by (simp add: m bound_cache_fields)
  from t5 have e: "effects (snd (snd (insertNew (bound_cache 3) (maps_absent 0x1000) 5))) =
       [IncStat ''xcMapPage'', XcMapForeignRange 1 5 0x1000, Mincore 0x1000,
        LogError (CheckPagesFailed 5), Munmap 0x1000]"
    by (simp add: m bound_cache_fields env_fields)
  from h1 h2 h3 t1 t2 c r e show ?thesis by simp
qed

text \<open>
  Against C5 as stated (the store is unchanged): the cache limited to 50 holds the 50
  unused entries of the scenario; \<open>insertNew\<close> for the gfn 7, whose page is not
  resident, returns \<open>MAP_PAGE_NOT_PRESENT\<close> and leaves 25 entries.
\<close>

theorem insertNew_rejected_evicts:
  "fst (insertNew (exec (bound_cache 3) (acquire_release fifty)) (maps_absent 0x100000) 7)
     = MAP_PAGE_NOT_PRESENT
   \<and> length (cache (exec (bound_cache 3) (acquire_release fifty))) = 50
   \<and> length (cache (snd (snd (insertNew (exec (bound_cache 3) (acquire_release fifty))
        (maps_absent 0x100000) 7)))) = 25
   \<and> cache (snd (snd (insertNew (exec (bound_cache 3) (acquire_release fifty))
        (maps_absent 0x100000) 7))) \<noteq> cache (exec (bound_cache 3) (acquire_release fifty))"
proof -
  let ?S = "exec (bound_cache 3) (acquire_release fifty)"
  have x: "xci ?S \<noteq> 0" by (simp add: fifty_fields)
  have p: "map_result (maps_absent 0x100000) \<noteq> 0" by (simp add: env_fields)
  have r: "\<not> admitted ?S (maps_absent 0x100000)"
    by (simp add: admitted_def fifty_fields env_fields)
  have m: "make_room ?S = cleanup ?S"
    by (simp add: make_room_def fifty_fields fifty_cache_length)
  note eq = insertNew_rejected [OF x p r, of 7]
  have a: "fst (insertNew ?S (maps_absent 0x100000) 7) = MAP_PAGE_NOT_PRESENT"
    by (simp add: eq)
  have c: "cache (snd (snd (insertNew ?S (maps_absent 0x100000) 7))) = cache (cleanup ?S)"
    by (simp add: eq m)
  have l: "length (cache (snd (snd (insertNew ?S (maps_absent 0x100000) 7)))) = 25"
    by (simp add: c fifty_cleanup_length)
  have n: "cache (snd (snd (insertNew ?S (maps_absent 0x100000) 7))) \<noteq> cache ?S"
  proof
    assume "cache (snd (snd (insertNew ?S (maps_absent 0x100000) 7))) = cache ?S"
    then have "length (cache (snd (snd (insertNew ?S (maps_absent 0x100000) 7)))) = length (cache ?S)"
      by (rule arg_cong)
    with l fifty_cache_length [of 3] show False by simp
  qed
  from a fifty_cache_length [of 3] l n show ?thesis by simp
qed

text \<open>
  C6, as the code has it. \<open>insertNew\<close> increments the counter \<open>xcMapPage\<close> once in every
  call that finds the provider handle not null, just before it calls the provider and
  whatever the provider and \<open>checkPages\<close> answer. The counter is not incremented when
  the handle is null, nor by an \<open>update\<close> that finds the gfn cached.
\<close>

theorem incStat_every_attempt:
  "(xci st \<noteq> 0 \<longrightarrow>
      calls (IncStat ''xcMapPage'') (snd (snd (insertNew st e g)))
        = calls (IncStat ''xcMapPage'') st + 1
      \<and> take 2 (drop (length (effects (make_room st))) (effects (snd (snd (insertNew st e g)))))
        = [IncStat ''xcMapPage'', XcMapForeignRange (domain st) g (map_result e)])
   \<and> (xci st = 0 \<longrightarrow> snd (snd (insertNew st e g)) = st)
   \<and> (xci st = 0 \<or> map_find (cache st) g \<noteq> None \<longrightarrow>
        calls (IncStat ''xcMapPage'') (snd (snd (update st e g))) = calls (IncStat ''xcMapPage'') st)"
proof -
  have a: "xci st \<noteq> 0 \<longrightarrow>
      calls (IncStat ''xcMapPage'') (snd (snd (insertNew st e g)))
        = calls (IncStat ''xcMapPage'') st + 1
      \<and> take 2 (drop (length (effects (make_room st))) (effects (snd (snd (insertNew st e g)))))
        = [IncStat ''xcMapPage'', XcMapForeignRange (domain st) g (map_result e)]"
    using calls_insertNew [of st e g] insertNew_calls_in_order [of st e g]
    by (simp add: provider_call_def)
  have b: "xci st = 0 \<longrightarrow> snd (snd (insertNew st e g)) = st"
    by (simp add: insertNew_null_handle)
  have c: "xci st = 0 \<or> map_find (cache st) g \<noteq> None \<longrightarrow>
        calls (IncStat ''xcMapPage'') (snd (snd (update st e g))) = calls (IncStat ''xcMapPage'') st"
  proof (cases "xci st = 0")
    case True
    then show ?thesis by (simp add: update_null_handle)
  next
    case False
    then show ?thesis by (auto simp: update_hit_eq calls_def)
  qed
  from a b c show ?thesis by blast
qed

theorem incStat_every_attempt_witness:
  "xci (bound_cache 3) \<noteq> 0
   \<and> calls (IncStat ''xcMapPage'') (snd (snd (insertNew (bound_cache 3) (maps_to 0x1000) 5))) = 1
   \<and> xci (XenPageCache 1536 True 0) = 0
   \<and> snd (snd (insertNew (XenPageCache 1536 True 0) (maps_to 0x1000) 5)) = XenPageCache 1536 True 0
   \<and> map_find (cache three_entries) 2 \<noteq> None
   \<and> calls (IncStat ''xcMapPage'') (snd (snd (update three_entries (maps_to 0x9000) 2))) = 0"
proof -
  have h1: "xci (bound_cache 3) \<noteq> 0" by (simp add: bound_cache_fields)
  have h2: "xci (XenPageCache 1536 True 0) = 0" by (simp add: XenPageCache_def)
  have h3: "map_find (cache three_entries) 2 \<noteq> None" by (simp add: three_entries_fields)
  have z: "calls (IncStat ''xcMapPage'') (bound_cache 3) = 0" "calls (IncStat ''xcMapPage'') three_entries = 0"
    by (simp_all add: calls_def bound_cache_fields three_entries_fields)
  note a = incStat_every_attempt [of "bound_cache 3" "maps_to 0x1000" 5,
      THEN conjunct1, rule_format, OF h1, THEN conjunct1]
  note b = incStat_every_attempt [of "XenPageCache 1536 True 0" "maps_to 0x1000" 5,
      THEN conjunct2, THEN conjunct1, rule_format, OF h2]
  note c = incStat_every_attempt [of three_entries "maps_to 0x9000" 2,
      THEN conjunct2, THEN conjunct2, rule_format, OF disjI2 [OF h3]]
  from a have a': "calls (IncStat ''xcMapPage'') (snd (snd (insertNew (bound_cache 3) (maps_to 0x1000) 5))) = 1"
    by (simp add: z)
  from c have c': "calls (IncStat ''xcMapPage'') (snd (snd (update three_entries (maps_to 0x9000) 2))) = 0"
    by (simp add: z)
  from h1 a' h2 b h3 c' show ?thesis by simp
qed

text \<open>
  Against C6 as stated (no increment when the map call fails or the page is rejected):
  on a new cache bound to a provider the counter is at 0; an \<open>insertNew\<close> whose provider
  call returns NULL fails and leaves the counter at 1, and so does one whose page is
  rejected by \<open>checkPages\<close>.
\<close>

theorem incStat_on_failed_map:
  "calls (IncStat ''xcMapPage'') (bound_cache 3) = 0
   \<and> fst (insertNew (bound_cache 3) map_fails 5) = MAP_FAILED_GENERIC
   \<and> calls (IncStat ''xcMapPage'') (snd (snd (insertNew (bound_cache 3) map_fails 5))) = 1
   \<and> fst (insertNew (bound_cache 3) (maps_absent 0x1000) 5) = MAP_PAGE_NOT_PRESENT
   \<and> calls (IncStat ''xcMapPage'') (snd (snd (insertNew (bound_cache 3) (maps_absent 0x1000) 5))) = 1"
proof -
  have x: "xci (bound_cache 3) \<noteq> 0" by (simp add: bound_cache_fields)
  have z: "calls (IncStat ''xcMapPage'') (bound_cache 3) = 0"
    by (simp add: calls_def bound_cache_fields)
  have a: "fst (insertNew (bound_cache 3) map_fails 5) = MAP_FAILED_GENERIC"
    by (simp add: insertNew_status bound_cache_fields env_fields)
  have b: "fst (insertNew (bound_cache 3) (maps_absent 0x1000) 5) = MAP_PAGE_NOT_PRESENT"
    by (simp add: insertNew_status bound_cache_fields env_fields admitted_bound_cache)
  from z a b calls_insertNew [OF x, of map_fails 5] calls_insertNew [OF x, of "maps_absent 0x1000" 5]
  show ?thesis by simp
qed

text \<open>
  C7. When the provider handle is not null and the gfn is cached, \<open>update\<close> returns
  \<open>MAP_SUCCESS\<close> and the stored pointer, stamps the entry with the current value of
  the clock and adds one to its \<open>in_use\<close>, leaving its pointer, the other entries and
  the reverse index as they were; it calls nothing (no provider call), and the clock
  advances by one.
\<close>

theorem update_hit:
  assumes "xci st \<noteq> 0" "map_find (cache st) g = Some ci"
  shows "fst (update st e g) = MAP_SUCCESS
       \<and> fst (snd (update st e g)) = pointer ci
       \<and> map_find (cache (snd (snd (update st e g)))) g
           = Some (ci\<lparr>accessed := index st, in_use := in_use ci + 1\<rparr>)
       \<and> (\<forall>g'. g' \<noteq> g \<longrightarrow>
            map_find (cache (snd (snd (update st e g)))) g' = map_find (cache st) g')
       \<and> reverseCache (snd (snd (update st e g))) = reverseCache st
       \<and> effects (snd (snd (update st e g))) = effects st
       \<and> index (snd (snd (update st e g))) = index st + 1"
  using assms by (simp add: update_hit_eq [OF assms] map_find_modify)

theorem update_hit_witness:
  "xci three_entries \<noteq> 0
   \<and> map_find (cache three_entries) 2 = Some \<lparr>accessed = 3, pointer = 0x2000, in_use = 2\<rparr>
   \<and> fst (update three_entries (maps_to 0x9000) 2) = MAP_SUCCESS
   \<and> fst (snd (update three_entries (maps_to 0x9000) 2)) = 0x2000
   \<and> map_find (cache (snd (snd (update three_entries (maps_to 0x9000) 2)))) 2
       = Some \<lparr>accessed = 8, pointer = 0x2000, in_use = 3\<rparr>
   \<and> effects (snd (snd (update three_entries (maps_to 0x9000) 2))) = []"
proof -
  have x: "xci three_entries \<noteq> 0" by (simp add: three_entries_fields)
  note f = three_entries_fields(7)
  note t = update_hit [OF x f, of "maps_to 0x9000"]
  note t1 = t [THEN conjunct1]
  note t2 = t [THEN conjunct2, THEN conjunct1]
  note t3 = t [THEN conjunct2, THEN conjunct2, THEN conjunct1]
  note t6 = t [THEN conjunct2, THEN conjunct2, THEN conjunct2, THEN conjunct2, THEN conjunct2, THEN conjunct1]
  from t2 have b: "fst (snd (update three_entries (maps_to 0x9000) 2)) = 0x2000" by simp
  from t3 have c: "map_find (cache (snd (snd (update three_entries (maps_to 0x9000) 2)))) 2
       = Some \<lparr>accessed = 8, pointer = 0x2000, in_use = 3\<rparr>"
    by (simp add: three_entries_fields)
  from t6 have e: "effects (snd (snd (update three_entries (maps_to 0x9000) 2))) = []"
    by (simp add: three_entries_fields)
  from x f t1 b c e show ?thesis by simp
qed

text \<open>
  C8. \<open>checkPages\<close> returns false exactly when the major version is below 4 and either
  \<open>mincore\<close> fails or bit 0 of \<open>vec[0]\<close> is clear. From version 4 on it returns true
  and does not call \<open>mincore\<close>; below 4 it calls it once. When
  /proc/sys/kernel/osrelease cannot be opened the version stays -1, so the probe is run.
\<close>

theorem checkPages_residency:
  "(\<not> fst (checkPages st e addr) \<longleftrightarrow>
      linuxMajVersion st < 4 \<and> (mincore_rc e < 0 \<or> mincore_vec e AND 1 = 0))
   \<and> (4 \<le> linuxMajVersion st \<longrightarrow> checkPages st e addr = (True, st))
   \<and> (linuxMajVersion st < 4 \<longrightarrow>
        effects (snd (checkPages st e addr)) = effects st @ [Mincore addr])
   \<and> linuxMajVersion (XenPageCache_xci dflt x d lh None idx) = - 1
   \<and> (fst (checkPages (XenPageCache_xci dflt x d lh None idx) e addr) \<longleftrightarrow>
        \<not> (mincore_rc e < 0 \<or> mincore_vec e AND 1 = 0))"
  by (simp add: checkPages_def Let_def XenPageCache_xci_def XenPageCache_def init_def)

theorem checkPages_residency_witness:
  "linuxMajVersion (bound_cache 3) < 4
   \<and> \<not> fst (checkPages (bound_cache 3) (maps_absent 0x1000) 0x1000)
   \<and> fst (checkPages (bound_cache 3) (maps_to 0x1000) 0x1000)
   \<and> effects (snd (checkPages (bound_cache 3) (maps_to 0x1000) 0x1000)) = [Mincore 0x1000]
   \<and> 4 \<le> linuxMajVersion (bound_cache 4)
   \<and> checkPages (bound_cache 4) (maps_absent 0x1000) 0x1000 = (True, bound_cache 4)"
proof -
  have v3: "linuxMajVersion (bound_cache 3) < 4" and v4: "4 \<le> linuxMajVersion (bound_cache 4)"
    by (simp_all add: bound_cache_fields)
  note a = checkPages_residency [of "bound_cache 3" "maps_absent 0x1000" "0x1000", THEN conjunct1]
  note b = checkPages_residency [of "bound_cache 3" "maps_to 0x1000" "0x1000", THEN conjunct1]
  note c = checkPages_residency [of "bound_cache 3" "maps_to 0x1000" "0x1000",
      THEN conjunct2, THEN conjunct2, THEN conjunct1, rule_format, OF v3]
  note d = checkPages_residency [of "bound_cache 4" "maps_absent 0x1000" "0x1000",
      THEN conjunct2, THEN conjunct1, rule_format, OF v4]
  from a have a': "\<not> fst (checkPages (bound_cache 3) (maps_absent 0x1000) 0x1000)"
    by (simp add: bound_cache_fields env_fields)
  from b have b': "fst (checkPages (bound_cache 3) (maps_to 0x1000) 0x1000)"
    by (simp add: bound_cache_fields env_fields)
  from c have c': "effects (snd (checkPages (bound_cache 3) (maps_to 0x1000) 0x1000)) = [Mincore 0x1000]"
    by (simp add: bound_cache_fields)
  from v3 a' b' c' v4 d show ?thesis by simp
qed

text \<open>
  C9. \<open>setLimit\<close> with a limit below 50 returns false and leaves the cache as it is;
  with a limit of 50 or more it stores the limit and returns true.
\<close>

theorem setLimit_floor:
  "(x < 50 \<longrightarrow> setLimit st x = (False, st))
   \<and> (50 \<le> x \<longrightarrow> setLimit st x = (True, st\<lparr>cacheLimit := x\<rparr>))"
  by (simp add: setLimit_def)

theorem setLimit_floor_witness:
  "setLimit three_entries 49 = (False, three_entries)
   \<and> setLimit three_entries 50 = (True, three_entries\<lparr>cacheLimit := 50\<rparr>)
   \<and> cacheLimit (snd (setLimit three_entries 1536)) = 1536"
  using setLimit_floor [of 49 three_entries] setLimit_floor [of 50 three_entries]
    setLimit_floor [of 1536 three_entries]
  by simp

text \<open>
  C10. Whenever \<open>insertNew\<close> or \<open>update\<close> returns a status other than \<open>MAP_SUCCESS\<close>,
  the out-parameter is left null. \<open>insertNew\<close> fails exactly when the handle is null,
  the provider returns null or \<open>checkPages\<close> rejects the page.
\<close>

theorem failed_acquire_null_pointer:
  "(fst (insertNew st e g) \<noteq> MAP_SUCCESS \<longrightarrow> fst (snd (insertNew st e g)) = 0)
   \<and> (fst (update st e g) \<noteq> MAP_SUCCESS \<longrightarrow> fst (snd (update st e g)) = 0)
   \<and> (fst (insertNew st e g) \<noteq> MAP_SUCCESS \<longleftrightarrow>
        xci st = 0 \<or> map_result e = 0 \<or> \<not> fst (checkPages st e (map_result e)))"
proof -
  have a: "fst (insertNew st e g) \<noteq> MAP_SUCCESS \<longrightarrow> fst (snd (insertNew st e g)) = 0"
    by (simp add: insertNew_pointer)
  have b: "fst (update st e g) \<noteq> MAP_SUCCESS \<longrightarrow> fst (snd (update st e g)) = 0"
    using update_pointer by blast
  have c: "fst (insertNew st e g) \<noteq> MAP_SUCCESS \<longleftrightarrow>
        xci st = 0 \<or> map_result e = 0 \<or> \<not> fst (checkPages st e (map_result e))"
    by (simp add: insertNew_status checkPages_admitted)
  from a b c show ?thesis by blast
qed

theorem failed_acquire_null_pointer_witness:
  "fst (update (XenPageCache 1536 True 0) (maps_to 0x1000) 5) = MAP_FAILED_GENERIC
   \<and> fst (snd (update (XenPageCache 1536 True 0) (maps_to 0x1000) 5)) = 0
   \<and> fst (update (bound_cache 3) map_fails 5) = MAP_FAILED_GENERIC
   \<and> fst (snd (update (bound_cache 3) map_fails 5)) = 0
   \<and> fst (update (bound_cache 3) (maps_absent 0x1000) 5) = MAP_PAGE_NOT_PRESENT
   \<and> fst (snd (update (bound_cache 3) (maps_absent 0x1000) 5)) = 0"
proof -
  have x: "xci (bound_cache 3) \<noteq> 0" and m: "map_find (cache (bound_cache 3)) 5 = None"
    by (simp_all add: bound_cache_fields map_find_def)
  have a: "fst (update (XenPageCache 1536 True 0) (maps_to 0x1000) 5) = MAP_FAILED_GENERIC"
    by (simp add: update_null_handle XenPageCache_def)
  have b: "fst (update (bound_cache 3) map_fails 5) = MAP_FAILED_GENERIC"
    by (simp add: update_miss [OF x m] insertNew_status bound_cache_fields env_fields)
  have c: "fst (update (bound_cache 3) (maps_absent 0x1000) 5) = MAP_PAGE_NOT_PRESENT"
    by (simp add: update_miss [OF x m] insertNew_status bound_cache_fields env_fields
        admitted_bound_cache)
  note ta = failed_acquire_null_pointer [of "XenPageCache 1536 True 0" "maps_to 0x1000" 5,
      THEN conjunct2, THEN conjunct1, rule_format]
  note tb = failed_acquire_null_pointer [of "bound_cache 3" map_fails 5,
      THEN conjunct2, THEN conjunct1, rule_format]
  note tc = failed_acquire_null_pointer [of "bound_cache 3" "maps_absent 0x1000" 5,
      THEN conjunct2, THEN conjunct1, rule_format]
  have a': "fst (snd (update (XenPageCache 1536 True 0) (maps_to 0x1000) 5)) = 0"
    by (rule ta) (simp add: a)
  have b': "fst (snd (update (bound_cache 3) map_fails 5)) = 0"
    by (rule tb) (simp add: b)
  have c': "fst (snd (update (bound_cache 3) (maps_absent 0x1000) 5)) = 0"
    by (rule tc) (simp add: c)
  from a a' b b' c c' show ?thesis by simp
qed

end
